theory Spec2Isabelle
  imports Main "HOL-Library.AList"
begin

chapter \<open>The media harvesters: embedding\<close>

text \<open>
  The repository holds three harvesters and a dispatcher.  The API harvester
  (\<^verbatim>\<open>harvest-grok-imagine-v2.js\<close>) pages through a REST listing and downloads with
  \<^verbatim>\<open>net.request\<close>; the scraping harvester (second half of the same file) finds media in
  the rendered page and lets the browser session download it; the photo harvester
  (\<^verbatim>\<open>part_000\<close>) re-downloads orphaned photo metadata.  Each is an event-driven
  program: its global variables become a record, each callback becomes a function on that
  record, and the things the environment decides (HTTP outcomes, file-system failures,
  the passing of time) are the events of a step function.
\<close>

section \<open>JavaScript strings and truthiness\<close>

text \<open>
  A string is a list of characters, one per UTF-16 code unit of the source string.
  A value that may be \<^verbatim>\<open>undefined\<close> is an option; \<^verbatim>\<open>a || b\<close> on such values takes
  \<open>a\<close> unless it is missing or empty.
\<close>

definition truthy :: "string option \<Rightarrow> bool" where
  "truthy v = (case v of None \<Rightarrow> False | Some s \<Rightarrow> s \<noteq> [])"

definition jsOr :: "string option \<Rightarrow> string option \<Rightarrow> string option" where
  "jsOr a b = (if truthy a then a else b)"

definition CR :: char where
  "CR = CHR 0x0D"

definition LF :: char where
  "LF = CHR 0x0A"

definition isLineBreak :: "char \<Rightarrow> bool" where
  "isLineBreak c = (c = CR \<or> c = LF)"

text \<open>
  \<^verbatim>\<open>str.replace(/[\r\n]+/g, ' ')\<close>: every maximal run of line breaks becomes one
  space.  The flag says whether the previous character belonged to a run.
\<close>

fun replaceRuns :: "bool \<Rightarrow> string \<Rightarrow> string" where
  "replaceRuns inRun [] = []"
| "replaceRuns inRun (c # cs) =
     (if isLineBreak c
      then (if inRun then replaceRuns True cs else CHR '' '' # replaceRuns True cs)
      else c # replaceRuns False cs)"

definition toLowerChar :: "char \<Rightarrow> char" where
  "toLowerChar c =
     (let n = (of_char c :: nat) in if 65 \<le> n \<and> n \<le> 90 then char_of (n + 32) else c)"

definition toLowerCase :: "string \<Rightarrow> string" where
  "toLowerCase s = map toLowerChar s"

text \<open>Decimal digits of a number, as a template literal prints it.\<close>

fun digits :: "nat \<Rightarrow> nat \<Rightarrow> string" where
  "digits 0 n = []"
| "digits (Suc fuel) n =
     (if n < 10 then [char_of (48 + n)]
      else digits fuel (n div 10) @ [char_of (48 + n mod 10)])"

definition showNat :: "nat \<Rightarrow> string" where
  "showNat n = digits (Suc n) n"

section \<open>The API harvester\<close>

subsection \<open>Configuration\<close>

definition DOWNLOAD_ALL_VARIANTS :: bool where
  "DOWNLOAD_ALL_VARIANTS = False"

definition PREFER_HD_VIDEO :: bool where
  "PREFER_HD_VIDEO = True"

definition EMBED_METADATA :: bool where
  "EMBED_METADATA = True"

definition CONCURRENT_DOWNLOADS :: int where
  "CONCURRENT_DOWNLOADS = 5"

definition DOWNLOAD_RETRIES :: nat where
  "DOWNLOAD_RETRIES = 3"

text \<open>The literal delay of the \<^verbatim>\<open>setTimeout\<close> in \<^verbatim>\<open>handleDownloadError\<close>, in ms.\<close>

definition RETRY_DELAY_MS :: nat where
  "RETRY_DELAY_MS = 2000"

subsection \<open>Posts and tasks\<close>

datatype mediaType = Image | Video

text \<open>A download task as \<^verbatim>\<open>processPost\<close> builds it; dates are milliseconds since the epoch.\<close>

record task =
  url :: string
  filename :: string
  date :: int
  prompt :: "string option"
  sourceUrl :: string
  type :: mediaType

record childPost =
  childCreateTime :: int
  childMediaUrl :: "string option"
  childHdMediaUrl :: "string option"
  childMimeType :: "string option"
  childOriginalPrompt :: "string option"
  childPrompt :: "string option"

record post =
  postId :: string
  postCreateTime :: int
  postMediaUrl :: "string option"
  postMimeType :: "string option"
  postOriginalPrompt :: "string option"
  postPrompt :: "string option"
  childPosts :: "childPost list"

text \<open>
  \<^verbatim>\<open>getExtension\<close>: the lookup of the lower-cased MIME type in the table.  The table is
  a plain object, so the lookup also finds the properties it inherits; the lower-cased key
  can name two of them, \<^verbatim>\<open>constructor\<close> and \<^verbatim>\<open>__proto__\<close>, whose values are truthy.  The
  result is only ever printed into a file name, so the two values are given as they print.
\<close>

definition getExtension :: "string option \<Rightarrow> string option" where
  "getExtension mimeType =
     (case mimeType of
        None \<Rightarrow> None
      | Some m \<Rightarrow>
          (let l = toLowerCase m in
           if l = ''image/jpeg'' then Some ''jpg''
           else if l = ''image/png'' then Some ''png''
           else if l = ''image/gif'' then Some ''gif''
           else if l = ''image/webp'' then Some ''webp''
           else if l = ''video/mp4'' then Some ''mp4''
           else if l = ''constructor'' then Some ''function Object() { [native code] }''
           else if l = ''__proto__'' then Some ''[object Object]''
           else None))"

definition orDefault :: "string option \<Rightarrow> string \<Rightarrow> string" where
  "orDefault v d = (case v of None \<Rightarrow> d | Some s \<Rightarrow> s)"

text \<open>The image task of a post (step 1 of \<^verbatim>\<open>processPost\<close>), if the post has a media URL.\<close>

definition imageTasks :: "post \<Rightarrow> task list" where
  "imageTasks p =
     (if truthy (postMediaUrl p)
      then [\<lparr> url = the (postMediaUrl p),
              filename = ''grok-image-'' @ postId p @ ''.'' @ orDefault (getExtension (postMimeType p)) ''jpg'',
              date = postCreateTime p,
              prompt = jsOr (postOriginalPrompt p) (postPrompt p),
              sourceUrl = the (postMediaUrl p),
              type = Image \<rparr>]
      else [])"

text \<open>
  The children sorted newest first (the sort is stable), then either all of them or the
  first one only.
\<close>

definition childrenToDownload :: "post \<Rightarrow> childPost list" where
  "childrenToDownload p =
     (let sortedChildren = sort_key (\<lambda>c. - childCreateTime c) (childPosts p) in
      if DOWNLOAD_ALL_VARIANTS then sortedChildren else [hd sortedChildren])"

definition videoUrl :: "childPost \<Rightarrow> string option" where
  "videoUrl c =
     (if PREFER_HD_VIDEO \<and> truthy (childHdMediaUrl c) then childHdMediaUrl c else childMediaUrl c)"

definition videoTask :: "post \<Rightarrow> nat \<Rightarrow> nat \<Rightarrow> childPost \<Rightarrow> task list" where
  "videoTask p count index c =
     (if \<not> truthy (videoUrl c) then []
      else
        [\<lparr> url = the (videoUrl c),
           filename = ''grok-video-'' @ postId p
             @ (if DOWNLOAD_ALL_VARIANTS \<and> count > 1 then ''-'' @ showNat (index + 1) else [])
             @ ''.'' @ orDefault (getExtension (childMimeType c)) ''mp4'',
           date = postCreateTime p + int index * 1000,
           prompt = jsOr (jsOr (childOriginalPrompt c) (childPrompt c)) (postPrompt p),
           sourceUrl = ''https://grok.com/imagine/post/'' @ postId p,
           type = Video \<rparr>])"

definition videoTasks :: "post \<Rightarrow> task list" where
  "videoTasks p =
     (if childPosts p = [] then []
      else
        (let cs = childrenToDownload p in
         concat (map (\<lambda>(index, c). videoTask p (length cs) index c) (enumerate 0 cs))))"

text \<open>All tasks \<^verbatim>\<open>processPost\<close> hands to \<^verbatim>\<open>addToQueue\<close> for one post, in call order.\<close>

definition postTasks :: "post \<Rightarrow> task list" where
  "postTasks p = imageTasks p @ videoTasks p"

subsection \<open>Global state\<close>

text \<open>
  The lines the program prints that the properties below read: one per download attempt,
  per saved file, per post-processing warning, per failed attempt, per scheduled retry, and
  the final summary (downloaded, skipped, errors).
\<close>

datatype logLine =
    Downloading string
  | Saved string
  | PostProcessingError string
  | Fail string
  | Retrying string nat
  | AllCompleted nat nat nat

text \<open>
  The module's global variables, the two directories as the sets of file names in them,
  and the part of the runtime the callbacks live in: the requests that were sent and have
  not yet settled (each with the \<^verbatim>\<open>retryCount\<close> its closure holds), the pending retry
  timers (due time, task, the \<^verbatim>\<open>retryCount\<close> the retry will run with), and the clock.
  \<open>quitCalled\<close> records that \<^verbatim>\<open>app.quit()\<close> was called.
\<close>

record state =
  authHeaders :: bool
  downloadQueue :: "task list"
  activeDownloads :: int
  isScraping :: bool
  processedIds :: "string set"
  found :: nat
  downloaded :: nat
  skipped :: nat
  errors :: nat
  canStartDownloads :: bool
  downloadsHaveStarted :: bool
  outputDir :: "string set"
  tempDir :: "string set"
  inflight :: "(task \<times> nat) list"
  timers :: "(nat \<times> task \<times> nat) list"
  now :: nat
  console :: "logLine list"
  quitCalled :: bool

text \<open>The state at start-up over an output directory; the temp directory is emptied.\<close>

definition init :: "string set \<Rightarrow> state" where
  "init dir =
     \<lparr> authHeaders = False, downloadQueue = [], activeDownloads = 0, isScraping = False,
       processedIds = {}, found = 0, downloaded = 0, skipped = 0, errors = 0,
       canStartDownloads = False, downloadsHaveStarted = False,
       outputDir = dir, tempDir = {}, inflight = [], timers = [], now = 0,
       console = [], quitCalled = False \<rparr>"

subsection \<open>Queueing and dispatch\<close>

definition addToQueue :: "task \<Rightarrow> state \<Rightarrow> state" where
  "addToQueue t s =
     (if filename t \<in> outputDir s then s\<lparr> skipped := skipped s + 1 \<rparr>
      else s\<lparr> downloadQueue := downloadQueue s @ [t] \<rparr>)"

text \<open>
  The synchronous part of \<^verbatim>\<open>downloadFile\<close>: the slot is taken, the temp file is created
  and the request is sent.  What follows is decided by the events of the request.
\<close>

definition downloadFile :: "task \<Rightarrow> nat \<Rightarrow> state \<Rightarrow> state" where
  "downloadFile t retryCount s =
     s\<lparr> activeDownloads := activeDownloads s + 1,
        console := console s @ [Downloading (filename t)],
        tempDir := insert (filename t) (tempDir s),
        inflight := inflight s @ [(t, retryCount)] \<rparr>"

text \<open>
  The \<^verbatim>\<open>while\<close> loop of \<^verbatim>\<open>checkQueue\<close>.  The first argument is the pending queue,
  which the loop shifts one task at a time.
\<close>

fun dispatchLoop :: "task list \<Rightarrow> state \<Rightarrow> state" where
  "dispatchLoop [] s = s"
| "dispatchLoop (t # rest) s =
     (if activeDownloads s < CONCURRENT_DOWNLOADS
      then dispatchLoop rest (downloadFile t 0 (s\<lparr> downloadQueue := rest \<rparr>))
      else s)"

definition checkQueue :: "state \<Rightarrow> state" where
  "checkQueue s =
     (if \<not> canStartDownloads s then s
      else if downloadQueue s = [] \<and> activeDownloads s = 0 \<and> \<not> isScraping s
      then s\<lparr> console := console s @ [AllCompleted (downloaded s) (skipped s) (errors s)],
              quitCalled := True \<rparr>
      else dispatchLoop (downloadQueue s) s)"

definition processPost :: "post \<Rightarrow> state \<Rightarrow> state" where
  "processPost p s =
     (if postId p \<in> processedIds s then s
      else checkQueue
             (fold addToQueue (postTasks p)
                (s\<lparr> processedIds := insert (postId p) (processedIds s), found := found s + 1 \<rparr>)))"

subsection \<open>Failure and retry\<close>

definition handleDownloadError :: "task \<Rightarrow> nat \<Rightarrow> state \<Rightarrow> state" where
  "handleDownloadError t retryCount s =
     (let s1 = s\<lparr> console := console s @ [Fail (filename t)] \<rparr> in
      if retryCount < DOWNLOAD_RETRIES
      then s1\<lparr> console := console s1 @ [Retrying (filename t) (retryCount + 1)],
               activeDownloads := activeDownloads s1 - 1,
               timers := timers s1 @ [(now s1 + RETRY_DELAY_MS, t, retryCount + 1)] \<rparr>
      else checkQueue
             (s1\<lparr> tempDir := tempDir s1 - {filename t},
                  errors := errors s1 + 1,
                  activeDownloads := activeDownloads s1 - 1 \<rparr>))"

text \<open>
  Both failure callbacks of a request (a response whose status is not 200, and the
  request's \<^verbatim>\<open>error\<close> event) close the stream, unlink the temp file and call
  \<^verbatim>\<open>handleDownloadError\<close>.  The request is settled.
\<close>

definition onRequestFailed :: "task \<Rightarrow> nat \<Rightarrow> state \<Rightarrow> state" where
  "onRequestFailed t retryCount s =
     handleDownloadError t retryCount
       (s\<lparr> inflight := remove1 (t, retryCount) (inflight s),
           tempDir := tempDir s - {filename t} \<rparr>)"

subsection \<open>Post-processing\<close>

text \<open>
  What the file system and the metadata tool do during the \<^verbatim>\<open>finish\<close> callback.
  \<^verbatim>\<open>embedMetadata\<close> swallows the tool's errors.  For a video it unlinks the temp file
  and renames the tool's output over it, so the temp file is lost when that rename fails
  (\<open>embedLosesTemp\<close>); and it throws only when the clean-up in its \<^verbatim>\<open>catch\<close> block
  throws (\<open>embedThrows\<close>).  The other three flags say whether the rename to the final
  path, the \<^verbatim>\<open>utimes\<close> call and the rename of the \<^verbatim>\<open>catch\<close> block succeed when they
  are reached and their source file exists.  File dates are not part of the state.
\<close>

record finishOutcome =
  embedLosesTemp :: bool
  embedThrows :: bool
  renameOk :: bool
  utimesOk :: bool
  fallbackRenameOk :: bool

definition rename :: "string \<Rightarrow> state \<Rightarrow> state" where
  "rename fn s = s\<lparr> tempDir := tempDir s - {fn}, outputDir := insert fn (outputDir s) \<rparr>"

text \<open>
  Whether the \<^verbatim>\<open>try\<close> block of the \<^verbatim>\<open>finish\<close> callback gets as far as the rename,
  and whether it runs to its end.
\<close>

definition tempAfterEmbed :: "task \<Rightarrow> finishOutcome \<Rightarrow> state \<Rightarrow> string set" where
  "tempAfterEmbed t oc s =
     (if EMBED_METADATA \<and> embedLosesTemp oc \<and> type t = Video
      then tempDir s - {filename t} else tempDir s)"

definition renamed :: "task \<Rightarrow> finishOutcome \<Rightarrow> state \<Rightarrow> bool" where
  "renamed t oc s =
     (\<not> (EMBED_METADATA \<and> embedThrows oc)
      \<and> filename t \<in> tempAfterEmbed t oc s \<and> renameOk oc)"

definition finalized :: "task \<Rightarrow> finishOutcome \<Rightarrow> state \<Rightarrow> bool" where
  "finalized t oc s = (renamed t oc s \<and> utimesOk oc)"

text \<open>The \<^verbatim>\<open>try\<close> and \<^verbatim>\<open>catch\<close> blocks of the \<^verbatim>\<open>finish\<close> callback.\<close>

definition finalize :: "task \<Rightarrow> finishOutcome \<Rightarrow> state \<Rightarrow> state" where
  "finalize t oc s =
     (let fn = filename t;
          s1 = s\<lparr> tempDir := tempAfterEmbed t oc s \<rparr>;
          s2 = (if renamed t oc s then rename fn s1 else s1)
      in if finalized t oc s
         then s2\<lparr> downloaded := downloaded s2 + 1, console := console s2 @ [Saved fn] \<rparr>
         else
           (let s3 = s2\<lparr> console := console s2 @ [PostProcessingError fn] \<rparr> in
            if fn \<in> tempDir s3 \<and> fn \<notin> outputDir s3 \<and> fallbackRenameOk oc
            then rename fn s3 else s3))"

text \<open>The whole callback: the request is settled, and the \<^verbatim>\<open>finally\<close> block runs last.\<close>

definition onFileFinish :: "task \<Rightarrow> nat \<Rightarrow> finishOutcome \<Rightarrow> state \<Rightarrow> state" where
  "onFileFinish t retryCount oc s =
     (let s1 = finalize t oc (s\<lparr> inflight := remove1 (t, retryCount) (inflight s) \<rparr>)
      in checkQueue (s1\<lparr> activeDownloads := activeDownloads s1 - 1 \<rparr>))"

subsection \<open>Events\<close>

text \<open>
  \<open>AppReady\<close> carries the autostart switch.  \<open>Response\<close>, \<open>RequestError\<close> and
  \<open>FileFinish\<close> settle the request that \<^verbatim>\<open>downloadFile\<close> sent for the task with that
  \<^verbatim>\<open>retryCount\<close>; \<open>RetryTimer\<close> is the callback of a retry timer that is due;
  \<open>Tick\<close> lets time pass.  An event that cannot happen in a state leaves it unchanged.
\<close>

datatype event =
    AppReady bool
  | HeadersCaptured
  | PressF7
  | ProcessPost post
  | DiscoveryComplete
  | Response task nat nat
  | RequestError task nat
  | FileFinish task nat finishOutcome
  | RetryTimer task nat
  | Tick nat

definition startApiHarvest :: "state \<Rightarrow> state" where
  "startApiHarvest s = s\<lparr> isScraping := True \<rparr>"

definition timerDue :: "state \<Rightarrow> task \<Rightarrow> nat \<Rightarrow> nat option" where
  "timerDue s t retryCount =
     (case filter (\<lambda>(due, t', rc). t' = t \<and> rc = retryCount \<and> due \<le> now s) (timers s) of
        [] \<Rightarrow> None
      | (due, _) # _ \<Rightarrow> Some due)"

fun step :: "state \<Rightarrow> event \<Rightarrow> state" where
  "step s (AppReady autostart) = (if autostart then s\<lparr> canStartDownloads := True \<rparr> else s)"
| "step s HeadersCaptured =
     (if downloadsHaveStarted s then s
      else
        (let s1 = s\<lparr> authHeaders := True \<rparr> in
         if canStartDownloads s1 then startApiHarvest (s1\<lparr> downloadsHaveStarted := True \<rparr>)
         else s1))"
| "step s PressF7 =
     (if downloadsHaveStarted s \<or> \<not> authHeaders s then s
      else startApiHarvest (s\<lparr> canStartDownloads := True, downloadsHaveStarted := True \<rparr>))"
| "step s (ProcessPost p) = (if isScraping s then processPost p s else s)"
| "step s DiscoveryComplete =
     (if isScraping s then checkQueue (s\<lparr> isScraping := False \<rparr>) else s)"
| "step s (Response t retryCount statusCode) =
     (if (t, retryCount) \<in> set (inflight s) \<and> statusCode \<noteq> 200
      then onRequestFailed t retryCount s else s)"
| "step s (RequestError t retryCount) =
     (if (t, retryCount) \<in> set (inflight s) then onRequestFailed t retryCount s else s)"
| "step s (FileFinish t retryCount oc) =
     (if (t, retryCount) \<in> set (inflight s) then onFileFinish t retryCount oc s else s)"
| "step s (RetryTimer t retryCount) =
     (case timerDue s t retryCount of
        None \<Rightarrow> s
      | Some due \<Rightarrow>
          downloadFile t retryCount (s\<lparr> timers := remove1 (due, t, retryCount) (timers s) \<rparr>))"
| "step s (Tick ms) = s\<lparr> now := now s + ms \<rparr>"

definition run :: "state \<Rightarrow> event list \<Rightarrow> state" where
  "run s evs = foldl step s evs"

subsection \<open>Metadata\<close>

text \<open>
  \<^verbatim>\<open>sanitizePrompt\<close>.  \<open>urlProtocol\<close> stands for the platform's URL parser: the
  protocol of \<^verbatim>\<open>new URL(str)\<close>, or \<open>None\<close> where the constructor throws.
\<close>

definition sanitizePrompt :: "(string \<Rightarrow> string option) \<Rightarrow> string option \<Rightarrow> string" where
  "sanitizePrompt urlProtocol str =
     (if \<not> truthy str then []
      else
        (let s = the str in
         if urlProtocol s = Some ''http:'' \<or> urlProtocol s = Some ''https:'' then []
         else take 2000 (replaceRuns False s)))"

fun replaceFirstChar :: "char \<Rightarrow> string \<Rightarrow> string \<Rightarrow> string" where
  "replaceFirstChar c r [] = []"
| "replaceFirstChar c r (x # xs) = (if x = c then r @ xs else x # replaceFirstChar c r xs)"

text \<open>\<^verbatim>\<open>replace(/\..+/, '')\<close>: from the first dot that a character of the same line follows, to the end of that line.\<close>

fun stripDotTail :: "string \<Rightarrow> string" where
  "stripDotTail [] = []"
| "stripDotTail (x # xs) =
     (if x = CHR ''.'' \<and> xs \<noteq> [] \<and> \<not> isLineBreak (hd xs)
      then dropWhile (\<lambda>c. \<not> isLineBreak c) xs
      else x # stripDotTail xs)"

text \<open>\<^verbatim>\<open>formatExifDate\<close>, on the ISO string of the date.\<close>

definition formatExifDate :: "string \<Rightarrow> string" where
  "formatExifDate isoDate =
     map (\<lambda>c. if c = CHR ''-'' then CHR '':'' else c)
       (stripDotTail (replaceFirstChar (CHR ''T'') '' '' isoDate))"

text \<open>
  The argument lists \<^verbatim>\<open>embedMetadata\<close> hands to the two tools; \<open>toISOString\<close> is the
  platform's date printer.
\<close>

definition exiftoolArgs ::
  "(string \<Rightarrow> string option) \<Rightarrow> (int \<Rightarrow> string) \<Rightarrow> string \<Rightarrow> task \<Rightarrow> string list" where
  "exiftoolArgs urlProtocol toISOString filePath t =
     (let sanitizedPrompt = sanitizePrompt urlProtocol (prompt t) in
      [''-overwrite_original'']
      @ (if sanitizedPrompt \<noteq> [] then [''-Comment='' @ sanitizedPrompt] else [])
      @ [''-Description='' @ sourceUrl t,
         ''-DateTimeOriginal='' @ formatExifDate (toISOString (date t)),
         filePath])"

definition ffmpegArgs ::
  "(string \<Rightarrow> string option) \<Rightarrow> (int \<Rightarrow> string) \<Rightarrow> string \<Rightarrow> string \<Rightarrow> task \<Rightarrow> string list" where
  "ffmpegArgs urlProtocol toISOString filePath tempOutput t =
     (let sanitizedPrompt = sanitizePrompt urlProtocol (prompt t) in
      [''-y'', ''-i'', filePath]
      @ (if sanitizedPrompt \<noteq> [] then [''-metadata'', ''comment='' @ sanitizedPrompt] else [])
      @ [''-metadata'', ''description='' @ sourceUrl t,
         ''-metadata'', ''creation_time='' @ toISOString (date t),
         ''-c'', ''copy'',
         tempOutput])"

text \<open>The values of the comment tags in an argument list, in either tool's syntax.\<close>

definition hasTag :: "string \<Rightarrow> string \<Rightarrow> bool" where
  "hasTag tag a = (take (length tag) a = tag)"

definition tagValues :: "string \<Rightarrow> string list \<Rightarrow> string list" where
  "tagValues tag args = map (drop (length tag)) (filter (hasTag tag) args)"

definition embeddedComments ::
  "(string \<Rightarrow> string option) \<Rightarrow> (int \<Rightarrow> string) \<Rightarrow> string \<Rightarrow> string \<Rightarrow> task \<Rightarrow> string list" where
  "embeddedComments urlProtocol toISOString filePath tempOutput t =
     (case type t of
        Image \<Rightarrow> tagValues ''-Comment='' (exiftoolArgs urlProtocol toISOString filePath t)
      | Video \<Rightarrow> tagValues ''comment='' (ffmpegArgs urlProtocol toISOString filePath tempOutput t))"

section \<open>The scraping harvester\<close>

subsection \<open>Configuration\<close>

definition DOWNLOAD_TIMEOUT_MS :: nat where
  "DOWNLOAD_TIMEOUT_MS = 120000"

definition MAX_CONCURRENT_DOWNLOADS :: nat where
  "MAX_CONCURRENT_DOWNLOADS = 25"

definition DOWNLOAD_RESUME_THRESHOLD :: nat where
  "DOWNLOAD_RESUME_THRESHOLD = 10"

definition MAX_DOWNLOAD_RETRIES :: nat where
  "MAX_DOWNLOAD_RETRIES = 3"

subsection \<open>Existing files and candidates\<close>

text \<open>
  \<^verbatim>\<open>file.replace(/\.[^/.]+$/, "")\<close>: the last dot and what follows it are removed when
  at least one character follows and none of them is a slash.
\<close>

definition stripExtension :: "string \<Rightarrow> string" where
  "stripExtension file =
     (let r = rev file;
          ext = takeWhile (\<lambda>c. c \<noteq> CHR ''.'' \<and> c \<noteq> CHR ''/'') r;
          rest = dropWhile (\<lambda>c. c \<noteq> CHR ''.'' \<and> c \<noteq> CHR ''/'') r
      in if ext \<noteq> [] \<and> rest \<noteq> [] \<and> hd rest = CHR ''.'' then rev (tl rest) else file)"

text \<open>The set \<^verbatim>\<open>startScraping\<close> builds from one listing of the destination directory.\<close>

definition existingFileBases :: "string list \<Rightarrow> string set" where
  "existingFileBases existingFileNames = set (map stripExtension existingFileNames)"

record potentialDownload =
  dlUrl :: string
  baseName :: string
  suffix :: string

definition isWordChar :: "char \<Rightarrow> bool" where
  "isWordChar c =
     (let n = (of_char c :: nat) in
      (48 \<le> n \<and> n \<le> 57) \<or> (65 \<le> n \<and> n \<le> 90) \<or> (97 \<le> n \<and> n \<le> 122) \<or> n = 95)"

text \<open>\<^verbatim>\<open>src.replace(/\.mp4\b/, '_hd.mp4')\<close>.\<close>

fun hdVariant :: "string \<Rightarrow> string" where
  "hdVariant [] = []"
| "hdVariant (c # cs) =
     (if c = CHR ''.'' \<and> take 3 cs = ''mp4'' \<and> (drop 3 cs = [] \<or> \<not> isWordChar (hd (drop 3 cs)))
      then ''_hd.mp4'' @ drop 3 cs
      else c # hdVariant cs)"

definition potentialDownloads :: "string \<Rightarrow> string \<Rightarrow> string option \<Rightarrow> potentialDownload list" where
  "potentialDownloads pid imgSrc videoSrc =
     \<lparr> dlUrl = imgSrc, baseName = ''grok-image-'' @ pid, suffix = ''.tmp'' \<rparr>
     # (if truthy videoSrc
        then [\<lparr> dlUrl = the videoSrc, baseName = ''grok-video-'' @ pid, suffix = ''.mp4'' \<rparr>,
              \<lparr> dlUrl = hdVariant (the videoSrc), baseName = ''grok-video-hd-'' @ pid,
                suffix = ''.mp4'' \<rparr>]
        else [])"

definition downloadsToRequest :: "string set \<Rightarrow> potentialDownload list \<Rightarrow> potentialDownload list" where
  "downloadsToRequest downloadedFileBases pds =
     filter (\<lambda>dl. baseName dl \<notin> downloadedFileBases) pds"

text \<open>
  The part of \<^verbatim>\<open>dealWithItem\<close> after the post id \<open>pid\<close> is read from the image
  URL (\<open>None\<close> when the URL has none): the new set of processed post ids and the
  \<^verbatim>\<open>requestDownload(url, filename)\<close> calls, in order.
\<close>

definition dealWithItem ::
  "string set \<Rightarrow> string set \<Rightarrow> string option \<Rightarrow> string \<Rightarrow> string option
     \<Rightarrow> string set \<times> (string \<times> string) list" where
  "dealWithItem downloadedFileBases processedPostIds pid imgSrc videoSrc =
     (if \<not> truthy pid \<or> the pid \<in> processedPostIds then (processedPostIds, [])
      else
        (insert (the pid) processedPostIds,
         map (\<lambda>dl. (dlUrl dl, baseName dl @ suffix dl))
           (downloadsToRequest downloadedFileBases
              (potentialDownloads (the pid) imgSrc videoSrc))))"

subsection \<open>Tracked downloads\<close>

datatype dlStatus = StatusPending | StatusDownloading

record downloadInfo =
  baseFilename :: string
  retriesLeft :: nat
  isRetry :: bool
  item :: bool
  finalFilename :: "string option"
  status :: dlStatus

datatype doneState = Completed | Cancelled | Interrupted

text \<open>
  The main process of the scraping harvester.  The \<^verbatim>\<open>downloadInfo\<close> objects are shared
  between the map and the closures of the download handlers, so they live in a store
  (\<open>objects\<close>, addressed by position) and the map \<^verbatim>\<open>activeDownloads\<close> holds addresses.
  \<open>liveItems\<close> are the download items whose handlers are attached: URL, address of the
  handler's \<^verbatim>\<open>downloadInfo\<close>, and its \<^verbatim>\<open>finalFilename\<close>.  \<open>scrapingPaused\<close> is the
  renderer's \<^verbatim>\<open>window.__SCRAPING_PAUSED\<close>; \<open>winUsable\<close> is
  \<^verbatim>\<open>win && !win.isDestroyed()\<close>; \<open>downloadUrlCalls\<close> lists the calls of
  \<^verbatim>\<open>downloadURL\<close>.
\<close>

record scraper =
  objects :: "downloadInfo list"
  activeDownloadsMap :: "(string \<times> nat) list"
  liveItems :: "(string \<times> nat \<times> string) list"
  scrapingFinished :: bool
  scrapingPaused :: bool
  winUsable :: bool
  downloadUrlCalls :: "string list"
  appQuit :: bool

definition scraperInit :: scraper where
  "scraperInit =
     \<lparr> objects = [], activeDownloadsMap = [], liveItems = [], scrapingFinished = False,
       scrapingPaused = False, winUsable = True, downloadUrlCalls = [], appQuit = False \<rparr>"

text \<open>The \<^verbatim>\<open>__DOWNLOAD_URL__\<close> branch of the console-message listener.\<close>

definition onDownloadUrl :: "string \<Rightarrow> string \<Rightarrow> scraper \<Rightarrow> scraper" where
  "onDownloadUrl u fname s =
     (let s1 =
        (if map_of (activeDownloadsMap s) u = None
         then s\<lparr> objects := objects s @
                    [\<lparr> baseFilename = fname, retriesLeft = MAX_DOWNLOAD_RETRIES, isRetry = False,
                       item = False, finalFilename = None, status = StatusPending \<rparr>],
                 activeDownloadsMap := AList.update u (length (objects s)) (activeDownloadsMap s) \<rparr>
         else s)
      in s1\<lparr> downloadUrlCalls := downloadUrlCalls s1 @ [u] \<rparr>)"

definition handleScrapingComplete :: "scraper \<Rightarrow> scraper" where
  "handleScrapingComplete s =
     (let s1 = s\<lparr> scrapingFinished := True \<rparr> in
      if length (activeDownloadsMap s1) = 0 then s1\<lparr> appQuit := True \<rparr> else s1)"

definition getExtensionFromMimeType :: "string \<Rightarrow> string option" where
  "getExtensionFromMimeType mimeType = getExtension (Some mimeType)"

fun replaceFirst :: "string \<Rightarrow> string \<Rightarrow> string \<Rightarrow> string" where
  "replaceFirst pat rep [] = (if pat = [] then rep else [])"
| "replaceFirst pat rep (c # cs) =
     (if take (length pat) (c # cs) = pat then rep @ drop (length pat) (c # cs)
      else c # replaceFirst pat rep cs)"

definition endsWith :: "string \<Rightarrow> string \<Rightarrow> bool" where
  "endsWith s e = (length e \<le> length s \<and> drop (length s - length e) s = e)"

text \<open>The file name the \<^verbatim>\<open>will-download\<close> handler saves under, and the updated object.\<close>

definition resolveFilename :: "string \<Rightarrow> downloadInfo \<Rightarrow> string \<times> downloadInfo" where
  "resolveFilename mimeType info =
     (let fname = (if truthy (finalFilename info) then the (finalFilename info) else baseFilename info) in
      if endsWith fname ''.tmp'' \<and> \<not> isRetry info
      then
        (let extension = orDefault (getExtensionFromMimeType mimeType) ''.jpg'';
             fname' = replaceFirst ''.tmp'' (''.'' @ extension) fname
         in (fname', info\<lparr> finalFilename := Some fname' \<rparr>))
      else (fname, info))"

definition willDownload :: "string \<Rightarrow> string \<Rightarrow> scraper \<Rightarrow> scraper" where
  "willDownload u mimeType s =
     (case map_of (activeDownloadsMap s) u of
        None \<Rightarrow> s
      | Some a \<Rightarrow>
          (let info = (objects s ! a)\<lparr> item := True, status := StatusDownloading \<rparr>;
               (fname, info') = resolveFilename mimeType info;
               s1 = s\<lparr> objects := (objects s)[a := info'],
                       liveItems := liveItems s @ [(u, a, fname)] \<rparr>
           in if length (activeDownloadsMap s1) > MAX_CONCURRENT_DOWNLOADS \<and> winUsable s1
              then s1\<lparr> scrapingPaused := True \<rparr> else s1))"

text \<open>The end of the \<^verbatim>\<open>done\<close> handler: the resume check and the quit check.\<close>

definition afterDone :: "scraper \<Rightarrow> scraper" where
  "afterDone s =
     (let s1 = (if length (activeDownloadsMap s) < DOWNLOAD_RESUME_THRESHOLD \<and> winUsable s
                then s\<lparr> scrapingPaused := False \<rparr> else s)
      in if scrapingFinished s1 \<and> length (activeDownloadsMap s1) = 0
         then s1\<lparr> appQuit := True \<rparr> else s1)"

definition itemDone :: "string \<Rightarrow> nat \<Rightarrow> string \<Rightarrow> doneState \<Rightarrow> scraper \<Rightarrow> scraper" where
  "itemDone u a fname st s =
     (let s0 = s\<lparr> liveItems := remove1 (u, a, fname) (liveItems s) \<rparr> in
      if st = Completed
      then afterDone (s0\<lparr> activeDownloadsMap := AList.delete u (activeDownloadsMap s0) \<rparr>)
      else if st \<noteq> Cancelled
      then
        (let info = objects s0 ! a in
         if retriesLeft info > 0
         then s0\<lparr> objects := (objects s0)
                      [a := info\<lparr> retriesLeft := retriesLeft info - 1, isRetry := True,
                                  status := StatusPending, item := False \<rparr>],
                  downloadUrlCalls := downloadUrlCalls s0 @ [u] \<rparr>
         else afterDone (s0\<lparr> activeDownloadsMap := AList.delete u (activeDownloadsMap s0) \<rparr>))
      else afterDone s0)"

datatype scraperEvent =
    DownloadUrlMessage string string
  | ScrapingCompleteMessage
  | WillDownload string string
  | ItemDone string nat string doneState
  | WindowDestroyed

fun scraperStep :: "scraper \<Rightarrow> scraperEvent \<Rightarrow> scraper" where
  "scraperStep s (DownloadUrlMessage u fname) =
     (if winUsable s then onDownloadUrl u fname s else s)"
| "scraperStep s ScrapingCompleteMessage = handleScrapingComplete s"
| "scraperStep s (WillDownload u mimeType) = willDownload u mimeType s"
| "scraperStep s (ItemDone u a fname st) =
     (if (u, a, fname) \<in> set (liveItems s) then itemDone u a fname st s else s)"
| "scraperStep s WindowDestroyed = s\<lparr> winUsable := False \<rparr>"

definition scraperRun :: "scraper \<Rightarrow> scraperEvent list \<Rightarrow> scraper" where
  "scraperRun s evs = foldl scraperStep s evs"

text \<open>The load the two thresholds are compared with: the size of \<^verbatim>\<open>activeDownloads\<close>.\<close>

definition load :: "scraper \<Rightarrow> nat" where
  "load s = length (activeDownloadsMap s)"

subsection \<open>The stall timer of a download item\<close>

text \<open>
  The variables the \<^verbatim>\<open>will-download\<close> handler closes over for one item: the pending
  timeout (\<open>None\<close> when cleared or fired, otherwise the time it is due), the byte count
  last seen, and what the timeout callback did: it cancels the item and prints that the
  download stalled.  Times are milliseconds.
\<close>

record stallWatch =
  deadline :: "nat option"
  lastBytes :: nat
  itemCancelled :: bool
  stallLogged :: bool

definition timeoutCallback :: "stallWatch \<Rightarrow> stallWatch" where
  "timeoutCallback w = w\<lparr> deadline := None, itemCancelled := True, stallLogged := True \<rparr>"

definition resetTimeout :: "nat \<Rightarrow> stallWatch \<Rightarrow> stallWatch" where
  "resetTimeout clock w = w\<lparr> deadline := Some (clock + DOWNLOAD_TIMEOUT_MS) \<rparr>"

definition startWatch :: "nat \<Rightarrow> stallWatch" where
  "startWatch clock =
     resetTimeout clock
       \<lparr> deadline = None, lastBytes = 0, itemCancelled = False, stallLogged = False \<rparr>"

text \<open>The \<^verbatim>\<open>updated\<close> handler, with the item's state and received byte count.\<close>

definition onUpdated :: "nat \<Rightarrow> bool \<Rightarrow> nat \<Rightarrow> stallWatch \<Rightarrow> stallWatch" where
  "onUpdated clock progressing receivedBytes w =
     (if progressing \<and> receivedBytes > lastBytes w
      then resetTimeout clock (w\<lparr> lastBytes := receivedBytes \<rparr>)
      else w)"

text \<open>The clock reaches \<open>clock\<close>: a pending timeout that is due by then has fired.\<close>

definition timePasses :: "nat \<Rightarrow> stallWatch \<Rightarrow> stallWatch" where
  "timePasses clock w =
     (case deadline w of
        None \<Rightarrow> w
      | Some d \<Rightarrow> if d \<le> clock then timeoutCallback w else w)"

text \<open>
  A transfer as the handler sees it: the \<^verbatim>\<open>updated\<close> events with their times, state and
  received byte count.  A cancelled item sends no further events.
\<close>

fun transfer :: "(nat \<times> bool \<times> nat) list \<Rightarrow> stallWatch \<Rightarrow> stallWatch" where
  "transfer [] w = w"
| "transfer ((clock, progressing, receivedBytes) # evs) w =
     (let w1 = timePasses clock w in
      if itemCancelled w1 then w1
      else transfer evs (onUpdated clock progressing receivedBytes w1))"

text \<open>
  Updates that each arrive before the timeout then pending is due: \<open>d\<close> is the current
  due time and \<open>seen\<close> the byte count last seen, and an update that re-arms the timer
  moves the due time.
\<close>

fun steady :: "nat \<Rightarrow> nat \<Rightarrow> (nat \<times> bool \<times> nat) list \<Rightarrow> bool" where
  "steady d seen [] = True"
| "steady d seen ((clock, progressing, receivedBytes) # evs) =
     (clock < d
      \<and> (if progressing \<and> receivedBytes > seen
          then steady (clock + DOWNLOAD_TIMEOUT_MS) receivedBytes evs
          else steady d seen evs))"

section \<open>The photo harvester\<close>

definition DOWNLOAD_TIMEOUT_SECONDS :: nat where
  "DOWNLOAD_TIMEOUT_SECONDS = 30"

datatype rejection = DownloadStalled | DownloadFailed

datatype promiseState = PromisePending | Resolved string | Rejected rejection

text \<open>
  The closure of the photo harvester's \<^verbatim>\<open>will-download\<close> handler: the pending timeout,
  whether the callback cancelled the item, and the promise of \<^verbatim>\<open>triggerDownload\<close>, which
  keeps the first settlement.
\<close>

record photoWatch =
  photoDeadline :: "nat option"
  photoCancelled :: bool
  downloadPromise :: promiseState

definition settle :: "promiseState \<Rightarrow> photoWatch \<Rightarrow> photoWatch" where
  "settle r w = (if downloadPromise w = PromisePending then w\<lparr> downloadPromise := r \<rparr> else w)"

definition photoTimeoutCallback :: "photoWatch \<Rightarrow> photoWatch" where
  "photoTimeoutCallback w =
     settle (Rejected DownloadStalled) (w\<lparr> photoDeadline := None, photoCancelled := True \<rparr>)"

definition photoResetTimeout :: "nat \<Rightarrow> photoWatch \<Rightarrow> photoWatch" where
  "photoResetTimeout clock w =
     w\<lparr> photoDeadline := Some (clock + DOWNLOAD_TIMEOUT_SECONDS * 1000) \<rparr>"

definition photoStartWatch :: "nat \<Rightarrow> photoWatch" where
  "photoStartWatch clock =
     photoResetTimeout clock
       \<lparr> photoDeadline = None, photoCancelled = False, downloadPromise = PromisePending \<rparr>"

definition photoOnUpdated :: "nat \<Rightarrow> bool \<Rightarrow> photoWatch \<Rightarrow> photoWatch" where
  "photoOnUpdated clock progressing w = (if progressing then photoResetTimeout clock w else w)"

definition photoOnDone :: "doneState \<Rightarrow> string \<Rightarrow> photoWatch \<Rightarrow> photoWatch" where
  "photoOnDone st savePath w =
     (let w1 = w\<lparr> photoDeadline := None \<rparr> in
      if st = Completed then settle (Resolved savePath) w1
      else if st = Cancelled then w1
      else settle (Rejected DownloadFailed) w1)"

definition photoTimePasses :: "nat \<Rightarrow> photoWatch \<Rightarrow> photoWatch" where
  "photoTimePasses clock w =
     (case photoDeadline w of
        None \<Rightarrow> w
      | Some d \<Rightarrow> if d \<le> clock then photoTimeoutCallback w else w)"

fun photoTransfer :: "(nat \<times> bool \<times> nat) list \<Rightarrow> photoWatch \<Rightarrow> photoWatch" where
  "photoTransfer [] w = w"
| "photoTransfer ((clock, progressing, receivedBytes) # evs) w =
     (let w1 = photoTimePasses clock w in
      if photoCancelled w1 then w1
      else photoTransfer evs (photoOnUpdated clock progressing w1))"

text \<open>The same for the photo harvester, where every update that reports progress re-arms.\<close>

fun photoSteady :: "nat \<Rightarrow> (nat \<times> bool \<times> nat) list \<Rightarrow> bool" where
  "photoSteady d [] = True"
| "photoSteady d ((clock, progressing, receivedBytes) # evs) =
     (clock < d
      \<and> photoSteady (if progressing then clock + DOWNLOAD_TIMEOUT_SECONDS * 1000 else d) evs)"

subsection \<open>Files and paths\<close>

text \<open>
  What \<^verbatim>\<open>getTargets\<close> reads from a parsed metadata file: \<^verbatim>\<open>data.url\<close>,
  \<^verbatim>\<open>data.title\<close> and \<^verbatim>\<open>data.photoTakenTime?.formatted\<close>.  Each is a string or another
  value, of which only the truthiness matters (a missing property is \<^verbatim>\<open>undefined\<close>, which
  is falsy).
\<close>

datatype jsValue = Str string | NonString bool

definition truthyValue :: "jsValue \<Rightarrow> bool" where
  "truthyValue v = (case v of Str s \<Rightarrow> s \<noteq> [] | NonString b \<Rightarrow> b)"

record photoMeta =
  metaUrl :: jsValue
  metaTitle :: jsValue
  metaFormatted :: jsValue

text \<open>
  The file system, on a POSIX platform without links: a tree of directories and files,
  given by its root directory; the entries of a directory are in the order in which
  \<^verbatim>\<open>readdir\<close> lists them, and a name is looked up by the first match.  The name of
  an entry is a file name: not empty, without a slash, and neither \<^verbatim>\<open>.\<close> nor
  \<^verbatim>\<open>..\<close>.  Of a file the tree keeps what reading and parsing it as JSON gives:
  \<open>None\<close> when it cannot be read or parsed, or parses to \<^verbatim>\<open>null\<close>.  A path is
  absolute and normalised: the list of its components from the root.
\<close>

datatype fsEntry = FileEntry string "photoMeta option" | DirEntry string "fsEntry list"

fun entryName :: "fsEntry \<Rightarrow> string" where
  "entryName (FileEntry n c) = n"
| "entryName (DirEntry n es) = n"

definition findEntry :: "string \<Rightarrow> fsEntry list \<Rightarrow> fsEntry option" where
  "findEntry x es = List.find (\<lambda>e. entryName e = x) es"

fun entryAt :: "fsEntry \<Rightarrow> string list \<Rightarrow> fsEntry option" where
  "entryAt e [] = Some e"
| "entryAt (FileEntry n c) (x # xs) = None"
| "entryAt (DirEntry n es) (x # xs) =
     (case findEntry x es of None \<Rightarrow> None | Some e \<Rightarrow> entryAt e xs)"

text \<open>
  \<^verbatim>\<open>path.join(dir, s)\<close> for such a directory: the segments of \<open>s\<close> between slashes are
  taken in turn, \<^verbatim>\<open>.\<close> and empty segments are dropped and \<^verbatim>\<open>..\<close> drops the component
  before it (nothing at the root).  The result says also whether the joined path ends in
  a slash.
\<close>

fun splitSlash :: "string \<Rightarrow> string list" where
  "splitSlash [] = [[]]"
| "splitSlash (c # cs) =
     (if c = CHR ''/'' then [] # splitSlash cs
      else (c # hd (splitSlash cs)) # tl (splitSlash cs))"

fun normalizeString :: "string list \<Rightarrow> string list \<Rightarrow> string list" where
  "normalizeString res [] = res"
| "normalizeString res (seg # segs) =
     (if seg = [] \<or> seg = ''.'' then normalizeString res segs
      else if seg = ''..'' then normalizeString (butlast res) segs
      else normalizeString (res @ [seg]) segs)"

definition pathJoin :: "string list \<Rightarrow> string \<Rightarrow> string list \<times> bool" where
  "pathJoin dir s =
     (let comps = normalizeString dir (splitSlash s)
      in (comps, comps \<noteq> [] \<and> s \<noteq> [] \<and> last s = CHR ''/''))"

text \<open>
  \<^verbatim>\<open>existsSync\<close>: something is at the path, a directory if the path ends in a slash.
\<close>

definition existsSync :: "fsEntry \<Rightarrow> string list \<times> bool \<Rightarrow> bool" where
  "existsSync fs p =
     (case entryAt fs (fst p) of
        None \<Rightarrow> False
      | Some (FileEntry n c) \<Rightarrow> \<not> snd p
      | Some (DirEntry n es) \<Rightarrow> True)"

subsection \<open>Orphaned metadata files\<close>

text \<open>
  \<^verbatim>\<open>walk\<close> collects the paths of the files below a directory whose name ends in
  \<^verbatim>\<open>.json\<close>, in the order of the listings; \<open>readJson\<close> is \<^verbatim>\<open>readFile\<close> followed by
  \<^verbatim>\<open>JSON.parse\<close>.
\<close>

fun walk :: "string list \<Rightarrow> fsEntry list \<Rightarrow> string list list" where
  "walk dir [] = []"
| "walk dir (FileEntry name c # entries) =
     (if endsWith name ''.json'' then [dir @ [name]] else []) @ walk dir entries"
| "walk dir (DirEntry name sub # entries) = walk (dir @ [name]) sub @ walk dir entries"

definition readJson :: "fsEntry \<Rightarrow> string list \<Rightarrow> photoMeta option" where
  "readJson fs p = (case entryAt fs p of Some (FileEntry n c) \<Rightarrow> c | _ \<Rightarrow> None)"

text \<open>
  The body of the second loop of \<^verbatim>\<open>getTargets\<close> for one metadata file.  A title that is
  not a string makes \<^verbatim>\<open>path.join\<close> throw, which the loop catches like a parse error.
  \<^verbatim>\<open>getTargets\<close> itself fails (\<open>None\<close>) when the root directory cannot be listed.
\<close>

record target =
  jsonPath :: "string list"
  targetUrl :: jsValue
  title :: string
  mediaDate :: jsValue

definition targetOf :: "fsEntry \<Rightarrow> string list \<Rightarrow> target list" where
  "targetOf fs jp =
     (case readJson fs jp of
        None \<Rightarrow> []
      | Some d \<Rightarrow>
          if truthyValue (metaUrl d) \<and> truthyValue (metaTitle d)
          then (case metaTitle d of
                  NonString b \<Rightarrow> []
                | Str t \<Rightarrow>
                    if \<not> existsSync fs (pathJoin (butlast jp) t)
                    then [\<lparr> jsonPath = jp, targetUrl = metaUrl d, title = t,
                            mediaDate = metaFormatted d \<rparr>]
                    else [])
          else [])"

definition getTargets :: "fsEntry \<Rightarrow> string list \<Rightarrow> target list option" where
  "getTargets fs rootDir =
     (case entryAt fs rootDir of
        Some (DirEntry n es) \<Rightarrow> Some (concat (map (targetOf fs) (walk rootDir es)))
      | _ \<Rightarrow> None)"

subsection \<open>Downloading a target\<close>

text \<open>
  The changes a run makes to the file system, each within one directory.  \<open>modifyDir\<close>
  applies a change to the entries of the directory at a path, if there is one.
  \<^verbatim>\<open>mkdir\<close> with \<^verbatim>\<open>recursive\<close> adds the directories that are missing along a path.  A
  completed download is a file written (or replaced) at the save path.  \<^verbatim>\<open>rename\<close>
  within a directory replaces a file by a file and an empty directory by a directory, and
  fails otherwise or when the source is missing; a failing call leaves the tree as it is.
\<close>

fun modifyFirst :: "string \<Rightarrow> (fsEntry \<Rightarrow> fsEntry) \<Rightarrow> fsEntry list \<Rightarrow> fsEntry list" where
  "modifyFirst x g [] = []"
| "modifyFirst x g (e # es) = (if entryName e = x then g e # es else e # modifyFirst x g es)"

fun modifyDir :: "string list \<Rightarrow> (fsEntry list \<Rightarrow> fsEntry list) \<Rightarrow> fsEntry \<Rightarrow> fsEntry" where
  "modifyDir [] f (DirEntry n es) = DirEntry n (f es)"
| "modifyDir [] f (FileEntry n c) = FileEntry n c"
| "modifyDir (x # xs) f (DirEntry n es) = DirEntry n (modifyFirst x (modifyDir xs f) es)"
| "modifyDir (x # xs) f (FileEntry n c) = FileEntry n c"

fun mkdirRecursive :: "string list \<Rightarrow> fsEntry \<Rightarrow> fsEntry" where
  "mkdirRecursive [] e = e"
| "mkdirRecursive (x # xs) (FileEntry n c) = FileEntry n c"
| "mkdirRecursive (x # xs) (DirEntry n es) =
     DirEntry n
       (case findEntry x es of
          None \<Rightarrow> es @ [mkdirRecursive xs (DirEntry x [])]
        | Some e \<Rightarrow> modifyFirst x (mkdirRecursive xs) es)"

definition putFile :: "string \<Rightarrow> photoMeta option \<Rightarrow> fsEntry list \<Rightarrow> fsEntry list" where
  "putFile x c es =
     (case findEntry x es of
        None \<Rightarrow> es @ [FileEntry x c]
      | Some (FileEntry n c') \<Rightarrow> modifyFirst x (\<lambda>e. FileEntry x c) es
      | Some (DirEntry n sub) \<Rightarrow> es)"

definition writeFile :: "string list \<times> bool \<Rightarrow> photoMeta option \<Rightarrow> fsEntry \<Rightarrow> fsEntry" where
  "writeFile p c fs =
     (if snd p \<or> fst p = [] then fs
      else modifyDir (butlast (fst p)) (putFile (last (fst p)) c) fs)"

fun setName :: "string \<Rightarrow> fsEntry \<Rightarrow> fsEntry" where
  "setName m (FileEntry n c) = FileEntry m c"
| "setName m (DirEntry n es) = DirEntry m es"

fun replaceable :: "fsEntry \<Rightarrow> fsEntry \<Rightarrow> bool" where
  "replaceable (FileEntry n c) (FileEntry m c') = True"
| "replaceable (FileEntry n c) (DirEntry m es) = False"
| "replaceable (DirEntry n es) (FileEntry m c) = False"
| "replaceable (DirEntry n es) (DirEntry m es') = (es' = [])"

definition renameEntry :: "string \<Rightarrow> string \<Rightarrow> fsEntry list \<Rightarrow> fsEntry list" where
  "renameEntry n m es =
     (case findEntry n es of
        None \<Rightarrow> es
      | Some src \<Rightarrow>
          if (case findEntry m es of None \<Rightarrow> True | Some dst \<Rightarrow> replaceable src dst)
          then modifyFirst n (setName m) (filter (\<lambda>e. entryName e \<noteq> m) es)
          else es)"

definition hideFile :: "bool \<Rightarrow> string list \<Rightarrow> fsEntry \<Rightarrow> fsEntry" where
  "hideFile win32 filePath fs =
     (if win32 \<or> filePath = [] then fs
      else modifyDir (butlast filePath)
             (renameEntry (last filePath) (CHR ''.'' # last filePath)) fs)"

text \<open>
  The steps of \<^verbatim>\<open>processTarget\<close> on the file system: the directory of the metadata file
  is made sure of; if the download completes, Electron has saved it in that directory
  under the name \<^verbatim>\<open>item.getFilename()\<close> gives, and the metadata file is hidden
  (\<open>saved\<close> is that name and what the saved file would parse to, or \<open>None\<close> when the
  download failed or stalled).  On Windows \<^verbatim>\<open>hideFile\<close> sets the hidden attribute and
  leaves the name.  The windows work through the targets side by side, so a run is some
  interleaving of the steps of its targets.
\<close>

datatype fsStep =
    Mkdir "string list"
  | Save "string list" string "photoMeta option"
  | Hide "string list"

fun fsStepApply :: "bool \<Rightarrow> fsEntry \<Rightarrow> fsStep \<Rightarrow> fsEntry" where
  "fsStepApply win32 fs (Mkdir destDir) = mkdirRecursive destDir fs"
| "fsStepApply win32 fs (Save destDir name c) = writeFile (pathJoin destDir name) c fs"
| "fsStepApply win32 fs (Hide jp) = hideFile win32 jp fs"

definition processTarget :: "target \<Rightarrow> (string \<times> photoMeta option) option \<Rightarrow> fsStep list" where
  "processTarget tg saved =
     (let destDir = butlast (jsonPath tg) in
      Mkdir destDir
      # (case saved of
           None \<Rightarrow> []
         | Some (name, c) \<Rightarrow> [Save destDir name c, Hide (jsonPath tg)]))"

definition photoRun :: "bool \<Rightarrow> fsEntry \<Rightarrow> fsStep list \<Rightarrow> fsEntry" where
  "photoRun win32 fs steps = foldl (fsStepApply win32) fs steps"

section \<open>Sample inputs\<close>

text \<open>A post with one PNG image and no children, the task made from it, and outcomes of post-processing.\<close>

definition imagePost :: "string \<Rightarrow> post" where
  "imagePost i =
     \<lparr> postId = i, postCreateTime = 0, postMediaUrl = Some (''https://assets.example/'' @ i),
       postMimeType = Some ''image/png'', postOriginalPrompt = None,
       postPrompt = Some ''a cat'', childPosts = [] \<rparr>"

definition imageTask :: "string \<Rightarrow> task" where
  "imageTask i =
     \<lparr> url = ''https://assets.example/'' @ i, filename = ''grok-image-'' @ i @ ''.png'',
       date = 0, prompt = Some ''a cat'', sourceUrl = ''https://assets.example/'' @ i,
       type = Image \<rparr>"

definition allOk :: finishOutcome where
  "allOk =
     \<lparr> embedLosesTemp = False, embedThrows = False, renameOk = True,
       utimesOk = True, fallbackRenameOk = True \<rparr>"

definition utimesFails :: finishOutcome where
  "utimesFails =
     \<lparr> embedLosesTemp = False, embedThrows = False, renameOk = True,
       utimesOk = False, fallbackRenameOk = True \<rparr>"

definition renameFailsOnce :: finishOutcome where
  "renameFailsOnce =
     \<lparr> embedLosesTemp = False, embedThrows = False, renameOk = False,
       utimesOk = True, fallbackRenameOk = True \<rparr>"

text \<open>A stand-in for the platform's URL parser on the sample strings.\<close>

definition sampleProtocol :: "string \<Rightarrow> string option" where
  "sampleProtocol s =
     (if take 8 s = ''https://'' then Some ''https:''
      else if take 7 s = ''http://'' then Some ''http:''
      else None)"

text \<open>The harvest started with autostart and the headers captured.\<close>

definition started :: "string set \<Rightarrow> state" where
  "started dir = run (init dir) [AppReady True, HeadersCaptured]"

text \<open>Five posts processed one after the other.\<close>

definition fivePosts :: "event list" where
  "fivePosts = map (\<lambda>i. ProcessPost (imagePost i)) [''1'', ''2'', ''3'', ''4'', ''5'']"

definition renameFailsTwice :: finishOutcome where
  "renameFailsTwice =
     \<lparr> embedLosesTemp = False, embedThrows = False, renameOk = False,
       utimesOk = True, fallbackRenameOk = False \<rparr>"

text \<open>
  Two metadata files and the target made from the first; an album in which the photo of
  the first is missing; and a directory that holds the first metadata file alone.
\<close>

definition metaA :: photoMeta where
  "metaA = \<lparr> metaUrl = Str ''https://photos.example/a'', metaTitle = Str ''a.jpg'',
             metaFormatted = NonString False \<rparr>"

definition metaB :: photoMeta where
  "metaB = \<lparr> metaUrl = Str ''https://photos.example/b'', metaTitle = Str ''b.jpg'',
             metaFormatted = NonString False \<rparr>"

definition targetA :: target where
  "targetA = \<lparr> jsonPath = [''photos'', ''2019'', ''a.jpg.json''],
               targetUrl = Str ''https://photos.example/a'', title = ''a.jpg'',
               mediaDate = NonString False \<rparr>"

definition album :: fsEntry where
  "album =
     DirEntry []
       [DirEntry ''photos''
          [DirEntry ''2019''
             [FileEntry ''a.jpg.json'' (Some metaA), FileEntry ''b.jpg.json'' (Some metaB),
              FileEntry ''b.jpg'' None]]]"

definition orphan :: fsEntry where
  "orphan =
     DirEntry [] [DirEntry ''photos'' [DirEntry ''2019'' [FileEntry ''a.jpg.json'' (Some metaA)]]]"

text \<open>
  A stand-in for the platform's URL parser on strings of the shape
  \<^verbatim>\<open>https://user@host:port\<close>: the URL standard makes a port above 65535 a failure, so
  the constructor throws there, and otherwise the protocol is \<^verbatim>\<open>https:\<close>.
\<close>

definition isDigit :: "char \<Rightarrow> bool" where
  "isDigit c = (48 \<le> (of_char c :: nat) \<and> (of_char c :: nat) \<le> 57)"

definition readNat :: "string \<Rightarrow> nat" where
  "readNat ds = foldl (\<lambda>n c. 10 * n + (of_char c - 48)) 0 ds"

definition portProtocol :: "string \<Rightarrow> string option" where
  "portProtocol s =
     (if take 8 s = ''https://'' \<and> readNat (rev (takeWhile isDigit (rev s))) \<le> 65535
      then Some ''https:'' else None)"

text \<open>
  A prompt of 2001 characters that is no URL because of its port, and an image task
  carrying it; a stand-in for the platform's date printer.
\<close>

definition longUrlPrompt :: string where
  "longUrlPrompt = ''https://'' @ replicate 1975 (CHR ''u'') @ ''@example.com:99999''"

definition longUrlTask :: task where
  "longUrlTask = (imageTask ''7'')\<lparr> prompt := Some longUrlPrompt \<rparr>"

definition sampleISOString :: "int \<Rightarrow> string" where
  "sampleISOString d = ''2024-01-02T03:04:05.678Z''"

section \<open>Auxiliary predicates\<close>

text \<open>A console line that is a final summary.\<close>

fun isSummary :: "logLine \<Rightarrow> bool" where
  "isSummary (AllCompleted d k e) = True"
| "isSummary l = False"

text \<open>
  Nothing is queued, in flight, waiting for a retry, downloaded or failed, the output
  directory holds exactly \<open>dir\<close>, and the console holds summaries only.
\<close>

definition idle :: "string set \<Rightarrow> state \<Rightarrow> bool" where
  "idle dir s =
     (downloadQueue s = [] \<and> inflight s = [] \<and> timers s = [] \<and> activeDownloads s = 0
      \<and> downloaded s = 0 \<and> errors s = 0 \<and> outputDir s = dir
      \<and> list_all isSummary (console s))"

text \<open>A later run starts from fresh globals over the output directory an earlier run left.\<close>

definition secondRun :: "state \<Rightarrow> event list \<Rightarrow> state" where
  "secondRun s1 evs = run (init (outputDir s1)) evs"

text \<open>A first run in which two posts are found and both downloads complete.\<close>

definition firstRunOfTwo :: "event list" where
  "firstRunOfTwo =
     [AppReady True, HeadersCaptured, ProcessPost (imagePost ''1''), ProcessPost (imagePost ''2''),
      DiscoveryComplete, FileFinish (imageTask ''1'') 0 allOk, FileFinish (imageTask ''2'') 0 allOk]"

text \<open>
  The extensions \<^verbatim>\<open>getExtension\<close> and its two defaults can produce, and the file names
  a post with a given id can give to its tasks (one variant per post is downloaded).
\<close>

definition extensions :: "string list" where
  "extensions =
     [''jpg'', ''png'', ''gif'', ''webp'', ''mp4'', ''function Object() { [native code] }'',
      ''[object Object]'']"

definition namesOf :: "string \<Rightarrow> string list" where
  "namesOf i =
     map (\<lambda>e. ''grok-image-'' @ i @ ''.'' @ e) extensions
     @ map (\<lambda>e. ''grok-video-'' @ i @ ''.'' @ e) extensions"

text \<open>The download attempts made for a file name: the \<^verbatim>\<open>Downloading\<close> lines printed for it.\<close>

definition attempts :: "string \<Rightarrow> state \<Rightarrow> nat" where
  "attempts fn s = count_list (console s) (Downloading fn)"

text \<open>
  The attempts a file name can still use up: a full allowance for each pending task, what
  is left after the running attempt for each request in flight, and the attempt of a
  scheduled retry together with what is left after it.  \<open>budget\<close> adds the attempts
  already made.
\<close>

definition queued :: "string \<Rightarrow> task list \<Rightarrow> nat" where
  "queued fn q = count_list (map filename q) fn"

definition flying :: "string \<Rightarrow> (task \<times> nat) list \<Rightarrow> nat" where
  "flying fn fl =
     sum_list (map (\<lambda>(t, rc). if filename t = fn then DOWNLOAD_RETRIES - rc else 0) fl)"

definition waiting :: "string \<Rightarrow> (nat \<times> task \<times> nat) list \<Rightarrow> nat" where
  "waiting fn tm =
     sum_list (map (\<lambda>(due, t, rc). if filename t = fn then DOWNLOAD_RETRIES + 1 - rc else 0) tm)"

definition budget :: "string \<Rightarrow> state \<Rightarrow> nat" where
  "budget fn s =
     attempts fn s + (DOWNLOAD_RETRIES + 1) * queued fn (downloadQueue s)
     + flying fn (inflight s) + waiting fn (timers s)"

text \<open>
  Retry timers carry a retry count within the limit, no file name has a budget above the
  allowance, and a file name with a budget belongs to a processed post.
\<close>

definition accounted :: "state \<Rightarrow> bool" where
  "accounted s =
     (list_all (\<lambda>(due, t, rc). rc \<le> DOWNLOAD_RETRIES) (timers s)
      \<and> (\<forall>fn. budget fn s \<le> DOWNLOAD_RETRIES + 1)
      \<and> (\<forall>fn. 0 < budget fn s \<longrightarrow> (\<exists>i \<in> processedIds s. fn \<in> set (namesOf i))))"

text \<open>A run in which the only task fails three times and its fourth attempt is in flight.\<close>

definition failingRun :: "event list" where
  "failingRun =
     [AppReady True, HeadersCaptured, ProcessPost (imagePost ''1''),
      RequestError (imageTask ''1'') 0, Tick 2000, RetryTimer (imageTask ''1'') 1,
      Response (imageTask ''1'') 1 503, Tick 2000, RetryTimer (imageTask ''1'') 2,
      RequestError (imageTask ''1'') 2, Tick 2000, RetryTimer (imageTask ''1'') 3]"

text \<open>
  Along the events \<open>evs\<close> from \<open>s\<close>, the load after each one is at least \<open>low\<close>.
\<close>

fun loadStaysAbove :: "nat \<Rightarrow> scraper \<Rightarrow> scraperEvent list \<Rightarrow> bool" where
  "loadStaysAbove low s [] = True"
| "loadStaysAbove low s (e # evs) =
     (low \<le> load (scraperStep s e) \<and> loadStaysAbove low (scraperStep s e) evs)"

text \<open>
  Sample inputs for the scraping harvester: download requests for one-letter URLs, the
  state after a number of them, the first download starting, and the first one completing.
\<close>

definition alphabet :: string where
  "alphabet = ''abcdefghijklmnopqrstuvwxyz''"

definition requests :: "string \<Rightarrow> scraperEvent list" where
  "requests names = map (\<lambda>c. DownloadUrlMessage [c] (c # ''.mp4'')) names"

definition tracked :: "string \<Rightarrow> scraper" where
  "tracked names = scraperRun scraperInit (requests names)"

definition firstStarts :: scraperEvent where
  "firstStarts = WillDownload ''a'' ''video/mp4''"

definition firstCompletes :: scraperEvent where
  "firstCompletes = ItemDone ''a'' 0 ''a.mp4'' Completed"

text \<open>
  Sample transfers (time, progressing, received bytes): one that gains a byte about every
  100 seconds, with updates in between that bring nothing new; one whose updates bring no
  new bytes; one that is not progressing; a slow photo download; a photo download that
  reports progress without a byte; and an update that brings bytes while the item is
  interrupted.
\<close>

definition slowButSteady :: "(nat \<times> bool \<times> nat) list" where
  "slowButSteady =
     [(100000, True, 1), (150000, True, 1), (200000, False, 1), (210000, True, 2),
      (300000, True, 3)]"

definition noNewBytes :: "(nat \<times> bool \<times> nat) list" where
  "noNewBytes = [(5000, True, 0), (60000, False, 0)]"

definition notProgressing :: "(nat \<times> bool \<times> nat) list" where
  "notProgressing = [(5000, False, 0), (20000, False, 0)]"

definition slowPhoto :: "(nat \<times> bool \<times> nat) list" where
  "slowPhoto = [(25000, True, 1), (40000, False, 1), (50000, True, 1), (75000, True, 2)]"

definition progressWithoutBytes :: "(nat \<times> bool \<times> nat) list" where
  "progressWithoutBytes = [(25000, True, 0), (50000, True, 0), (75000, True, 0)]"

definition bytesWhileInterrupted :: "(nat \<times> bool \<times> nat) list" where
  "bytesWhileInterrupted = [(100000, False, 4096)]"

text \<open>A download of the scraping harvester that starts and is then cancelled.\<close>

definition cancelledDownload :: "scraperEvent list" where
  "cancelledDownload =
     [DownloadUrlMessage ''a'' ''a.mp4'', WillDownload ''a'' ''video/mp4'',
      ItemDone ''a'' 0 ''a.mp4'' Cancelled, ScrapingCompleteMessage]"

text \<open>
  Retries of the scraping harvester.  \<open>retryOf\<close> gives the object whose download a
  \<^verbatim>\<open>done\<close> event retries: the event belongs to an attached item, the state is neither
  completed nor cancelled, and the object has retries left.  \<open>retries\<close> counts the
  retries of one object in a run.
\<close>

definition retryOf :: "scraper \<Rightarrow> scraperEvent \<Rightarrow> nat option" where
  "retryOf s e =
     (case e of
        ItemDone u a fname st \<Rightarrow>
          if (u, a, fname) \<in> set (liveItems s) \<and> st \<noteq> Completed \<and> st \<noteq> Cancelled
             \<and> retriesLeft (objects s ! a) > 0
          then Some a else None
      | _ \<Rightarrow> None)"

fun retries :: "nat \<Rightarrow> scraper \<Rightarrow> scraperEvent list \<Rightarrow> nat" where
  "retries a s [] = 0"
| "retries a s (e # evs) =
     (if retryOf s e = Some a then 1 else 0) + retries a (scraperStep s e) evs"

text \<open>The addresses held by the map and by the attached items name objects of the store.\<close>

definition wellTracked :: "scraper \<Rightarrow> bool" where
  "wellTracked s =
     ((\<forall>(u, a) \<in> set (activeDownloadsMap s). a < length (objects s))
      \<and> (\<forall>(u, a, fname) \<in> set (liveItems s). a < length (objects s)))"

text \<open>
  A post whose image is on disk and whose video address has no \<^verbatim>\<open>.mp4\<close> in it, so
  that the page requests the same address under two file names; the two downloads start,
  both fail and are retried, and a retry fails again.
\<close>

definition clipUrl :: string where
  "clipUrl = ''https://assets.example/clip''"

definition clipPost :: string where
  "clipPost = ''0a1b2c3d-0000-4000-8000-0123456789ab''"

definition clipRequests :: "scraperEvent list" where
  "clipRequests =
     map (\<lambda>(u, fname). DownloadUrlMessage u fname)
       (snd (dealWithItem {''grok-image-'' @ clipPost} {} (Some clipPost)
          ''https://assets.example/0a1b2c3d-0000-4000-8000-0123456789ab/image.jpg''
          (Some clipUrl)))"

definition clipFails :: scraperEvent where
  "clipFails = ItemDone clipUrl 0 (''grok-video-'' @ clipPost @ ''.mp4'') Interrupted"

definition clipStarts :: scraperEvent where
  "clipStarts = WillDownload clipUrl ''video/mp4''"

definition sameUrlTwice :: "scraperEvent list" where
  "sameUrlTwice =
     clipRequests @ [clipStarts, clipStarts, clipFails, clipFails, clipStarts, clipFails]"

text \<open>A download that has started, and one that has failed three times and started again.\<close>

definition failsOnce :: "scraperEvent list" where
  "failsOnce = [DownloadUrlMessage ''a'' ''a.mp4'', WillDownload ''a'' ''video/mp4'']"

definition failsAgain :: "scraperEvent list" where
  "failsAgain =
     [DownloadUrlMessage ''a'' ''a.mp4'', WillDownload ''a'' ''video/mp4'',
      ItemDone ''a'' 0 ''a.mp4'' Interrupted, WillDownload ''a'' ''video/mp4'',
      ItemDone ''a'' 0 ''a.mp4'' Interrupted, WillDownload ''a'' ''video/mp4'',
      ItemDone ''a'' 0 ''a.mp4'' Interrupted, WillDownload ''a'' ''video/mp4'']"

text \<open>
  For the photo harvester: a file name as a download item gives it; the steps that belong
  to a target (those \<^verbatim>\<open>processTarget\<close> can take for it); a tree in which no directory
  lists a name twice; and what is at a path: nothing, a file (\<open>False\<close>) or a directory
  (\<open>True\<close>).
\<close>

definition plainName :: "string \<Rightarrow> bool" where
  "plainName x = (x \<noteq> [] \<and> CHR ''/'' \<notin> set x \<and> x \<noteq> ''.'' \<and> x \<noteq> ''..'')"

fun stepOf :: "target \<Rightarrow> fsStep \<Rightarrow> bool" where
  "stepOf tg (Mkdir d) = (d = butlast (jsonPath tg))"
| "stepOf tg (Save d name c) = (d = butlast (jsonPath tg))"
| "stepOf tg (Hide p) = (p = jsonPath tg)"

fun wellFormed :: "fsEntry \<Rightarrow> bool" where
  "wellFormed (FileEntry n c) = True"
| "wellFormed (DirEntry n es) = (distinct (map entryName es) \<and> (\<forall>e \<in> set es. wellFormed e))"

definition kindAt :: "fsEntry \<Rightarrow> string list \<Rightarrow> bool option" where
  "kindAt fs p =
     (case entryAt fs p of
        None \<Rightarrow> None
      | Some (FileEntry n c) \<Rightarrow> Some False
      | Some (DirEntry n es) \<Rightarrow> Some True)"

chapter \<open>The media harvesters: verification\<close>

section \<open>Prompt sanitising and the embedded comment\<close>

lemma length_replaceRuns: "length (replaceRuns b cs) \<le> length cs"
  by (induction cs arbitrary: b) (auto simp: le_SucI)

lemma replaceRuns_no_break: "c \<in> set (replaceRuns b cs) \<Longrightarrow> \<not> isLineBreak c"
  by (induction cs arbitrary: b) (auto simp: isLineBreak_def CR_def LF_def split: if_splits)

lemma sanitizePrompt_length: "length (sanitizePrompt up str) \<le> 2000"
  by (simp add: sanitizePrompt_def Let_def)

lemma sanitizePrompt_no_break: "c \<in> set (sanitizePrompt up str) \<Longrightarrow> \<not> isLineBreak c"
  by (auto simp: sanitizePrompt_def Let_def split: if_splits dest!: in_set_takeD replaceRuns_no_break)

lemma tagValues_Cons:
  "tagValues tag (a # args) =
     (if hasTag tag a then drop (length tag) a # tagValues tag args else tagValues tag args)"
  by (simp add: tagValues_def)

lemma tagValues_Nil: "tagValues tag [] = []"
  by (simp add: tagValues_def)

text \<open>
  With the temp paths not themselves shaped like a comment tag (they are absolute paths),
  the only comment either tool receives is the sanitised prompt, and none when it is empty.
\<close>

lemma embeddedComments_eq:
  assumes "\<not> hasTag ''-Comment='' filePath" "\<not> hasTag ''comment='' filePath"
    "\<not> hasTag ''comment='' tempOutput"
  shows "embeddedComments up toISO filePath tempOutput t =
     (if sanitizePrompt up (prompt t) = [] then [] else [sanitizePrompt up (prompt t)])"
  using assms
  by (cases "type t")
    (simp_all add: embeddedComments_def exiftoolArgs_def ffmpegArgs_def Let_def
      tagValues_Cons tagValues_Nil, simp_all add: hasTag_def)

lemma replaceRuns_plain: "\<forall>c \<in> set cs. \<not> isLineBreak c \<Longrightarrow> replaceRuns b cs = cs"
  by (induction cs arbitrary: b) auto

lemma longUrlPrompt_plain: "\<forall>c \<in> set longUrlPrompt. \<not> isLineBreak c"
  by (auto simp: longUrlPrompt_def isLineBreak_def CR_def LF_def)

lemma portProtocol_longUrlPrompt: "portProtocol longUrlPrompt = None"
  by (simp add: portProtocol_def longUrlPrompt_def isDigit_def readNat_def)

lemma sanitizePrompt_longUrlPrompt:
  "sanitizePrompt portProtocol (Some longUrlPrompt) =
     ''https://'' @ replicate 1975 (CHR ''u'') @ ''@example.com:9999''"
  using portProtocol_longUrlPrompt replaceRuns_plain [OF longUrlPrompt_plain]
  by (simp add: sanitizePrompt_def truthy_def Let_def) (simp add: longUrlPrompt_def)

lemma portProtocol_cut:
  "portProtocol (''https://'' @ replicate 1975 (CHR ''u'') @ ''@example.com:9999'') = Some ''https:''"
  by (simp add: portProtocol_def isDigit_def readNat_def)

text \<open>
  Claim C10 says that the post-processor never embeds a comment that consists of a web
  URL.  The test for a URL is made on the prompt as it comes, before it is cut to 2000
  characters.  The prompt below has 2001 characters and is no URL, since its port 99999
  is out of range; cut to 2000 characters its port reads 9999, and the comment embedded
  for the task is that https URL.
\<close>

theorem embedded_comment_is_web_url:
  "length longUrlPrompt = 2001
   \<and> portProtocol longUrlPrompt = None
   \<and> length (sanitizePrompt portProtocol (Some longUrlPrompt)) = 2000
   \<and> portProtocol (sanitizePrompt portProtocol (Some longUrlPrompt)) = Some ''https:''
   \<and> embeddedComments portProtocol sampleISOString ''/out/.grok-dl-tmp/grok-image-7.png''
        ''/out/.grok-dl-tmp/grok-image-7.png.meta.png'' longUrlTask
      = [''https://'' @ replicate 1975 (CHR ''u'') @ ''@example.com:9999'']"
  using portProtocol_longUrlPrompt sanitizePrompt_longUrlPrompt portProtocol_cut
  by (simp add: embeddedComments_def exiftoolArgs_def tagValues_def hasTag_def longUrlTask_def
      imageTask_def Let_def)
    (simp add: longUrlPrompt_def)

text \<open>
  Claim C10, amended.  For every input, \<^verbatim>\<open>sanitizePrompt\<close> returns at most 2000
  characters, none of them a carriage return or a line feed; it returns the empty string
  when the input is missing (or empty) and when the input parses as a URL whose protocol
  is http or https.  Hence every comment the post-processor embeds, for an image or a
  video, is the sanitised prompt of the task: non-empty, at most 2000 characters, free of
  line breaks, and never made from a prompt that parses as a web URL.
\<close>

theorem sanitizePrompt_spec:
  "length (sanitizePrompt up str) \<le> 2000
   \<and> CR \<notin> set (sanitizePrompt up str) \<and> LF \<notin> set (sanitizePrompt up str)
   \<and> (\<not> truthy str \<longrightarrow> sanitizePrompt up str = [])
   \<and> (\<forall>s. str = Some s \<and> (up s = Some ''http:'' \<or> up s = Some ''https:'')
          \<longrightarrow> sanitizePrompt up str = [])
   \<and> (\<not> hasTag ''-Comment='' filePath \<and> \<not> hasTag ''comment='' filePath
        \<and> \<not> hasTag ''comment='' tempOutput \<longrightarrow>
       (\<forall>c \<in> set (embeddedComments up toISO filePath tempOutput t).
          c = sanitizePrompt up (prompt t) \<and> c \<noteq> [] \<and> length c \<le> 2000
          \<and> CR \<notin> set c \<and> LF \<notin> set c
          \<and> truthy (prompt t)
          \<and> up (the (prompt t)) \<noteq> Some ''http:'' \<and> up (the (prompt t)) \<noteq> Some ''https:''))"
proof -
  have nb: "\<And>u v. CR \<notin> set (sanitizePrompt u v) \<and> LF \<notin> set (sanitizePrompt u v)"
    using sanitizePrompt_no_break by (auto simp: isLineBreak_def)
  have e: "\<not> truthy str \<longrightarrow> sanitizePrompt up str = []"
    by (simp add: sanitizePrompt_def)
  have w: "\<forall>s. str = Some s \<and> (up s = Some ''http:'' \<or> up s = Some ''https:'')
          \<longrightarrow> sanitizePrompt up str = []"
    by (auto simp: sanitizePrompt_def Let_def)
  have ne: "sanitizePrompt up (prompt t) \<noteq> [] \<Longrightarrow> truthy (prompt t)
      \<and> up (the (prompt t)) \<noteq> Some ''http:'' \<and> up (the (prompt t)) \<noteq> Some ''https:''"
    by (auto simp: sanitizePrompt_def Let_def split: if_splits)
  show ?thesis
    using nb e w ne sanitizePrompt_length
    by (auto simp: embeddedComments_eq split: if_splits)
qed

theorem sanitizePrompt_spec_witness:
  "\<not> hasTag ''-Comment='' ''/out/.grok-dl-tmp/grok-image-7.png''
   \<and> \<not> hasTag ''comment='' ''/out/.grok-dl-tmp/grok-image-7.png''
   \<and> \<not> hasTag ''comment='' ''/out/.grok-dl-tmp/grok-image-7.png.meta.png''
   \<and> sampleProtocol ''https://grok.com/imagine'' = Some ''https:''
   \<and> sanitizePrompt sampleProtocol (Some ''https://grok.com/imagine'') = []
   \<and> sanitizePrompt sampleProtocol None = []
   \<and> embeddedComments sampleProtocol (\<lambda>d. ''2024-01-02T03:04:05.678Z'')
        ''/out/.grok-dl-tmp/grok-image-7.png'' ''/out/.grok-dl-tmp/grok-image-7.png.meta.png''
        (imageTask ''7'') = [''a cat'']
   \<and> length ''a cat'' \<le> 2000 \<and> CR \<notin> set ''a cat'' \<and> LF \<notin> set ''a cat''"
  using sanitizePrompt_spec [of sampleProtocol "Some ''https://grok.com/imagine''"
      "''/out/.grok-dl-tmp/grok-image-7.png''" "''/out/.grok-dl-tmp/grok-image-7.png.meta.png''"
      "\<lambda>d. ''2024-01-02T03:04:05.678Z''" "imageTask ''7''"]
  by (simp add: hasTag_def sampleProtocol_def sanitizePrompt_def truthy_def imageTask_def
      embeddedComments_def exiftoolArgs_def tagValues_def isLineBreak_def CR_def LF_def)

section \<open>The API harvester: running sample traces\<close>

lemmas harvest_defs =
  run_def started_def init_def imagePost_def imageTask_def postTasks_def imageTasks_def
  videoTasks_def processPost_def checkQueue_def addToQueue_def downloadFile_def
  onRequestFailed_def handleDownloadError_def onFileFinish_def finalize_def finalized_def
  renamed_def tempAfterEmbed_def rename_def startApiHarvest_def timerDue_def truthy_def
  jsOr_def getExtension_def orDefault_def toLowerCase_def toLowerChar_def
  CONCURRENT_DOWNLOADS_def DOWNLOAD_RETRIES_def RETRY_DELAY_MS_def EMBED_METADATA_def
  allOk_def utimesFails_def renameFailsOnce_def Let_def

lemma postTasks_imagePost: "postTasks (imagePost i) = [imageTask i]"
  by (simp add: harvest_defs)

text \<open>
  Claim C1 says that the number of active downloads never exceeds
  \<^verbatim>\<open>CONFIG.CONCURRENT_DOWNLOADS\<close>, also on the delayed-retry path.  The run below
  reaches six active downloads with the limit at five: five downloads start, the first
  fails and releases its slot, a sixth post takes the slot through \<^verbatim>\<open>checkQueue\<close>,
  and two seconds later the retry timer calls \<^verbatim>\<open>downloadFile\<close> without looking at
  the limit.
\<close>

theorem concurrency_limit_exceeded:
  "activeDownloads
     (run (started {})
        (fivePosts @
         [RequestError (imageTask ''1'') 0, ProcessPost (imagePost ''6''), Tick 2000,
          RetryTimer (imageTask ''1'') 1])) = 6
   \<and> CONCURRENT_DOWNLOADS = 5"
  by (simp add: harvest_defs fivePosts_def)

text \<open>
  Claim C3 says that the run never ends while a submitted task has not reached a
  terminal state, a task waiting for its delayed retry included.  In the run below
  discovery is complete, the first download fails and waits for its retry, the second
  one finishes, and \<^verbatim>\<open>checkQueue\<close> finds the queue empty and no download active: it
  prints the summary and quits while the retry timer of the first task is still pending.
\<close>

theorem quit_while_retry_pending:
  "quitCalled
     (run (started {})
        [ProcessPost (imagePost ''1''), ProcessPost (imagePost ''2''), DiscoveryComplete,
         RequestError (imageTask ''1'') 0, FileFinish (imageTask ''2'') 0 allOk])
   \<and> timers
     (run (started {})
        [ProcessPost (imagePost ''1''), ProcessPost (imagePost ''2''), DiscoveryComplete,
         RequestError (imageTask ''1'') 0, FileFinish (imageTask ''2'') 0 allOk])
     = [(2000, imageTask ''1'', 1)]
   \<and> console
     (run (started {})
        [ProcessPost (imagePost ''1''), ProcessPost (imagePost ''2''), DiscoveryComplete,
         RequestError (imageTask ''1'') 0, FileFinish (imageTask ''2'') 0 allOk])
     = [Downloading ''grok-image-1.png'', Downloading ''grok-image-2.png'',
        Fail ''grok-image-1.png'', Retrying ''grok-image-1.png'' 1,
        Saved ''grok-image-2.png'', AllCompleted 1 0 0]"
  by (simp add: harvest_defs)

section \<open>The API harvester: what each callback leaves unchanged\<close>

lemma dispatchLoop_frame:
  "errors (dispatchLoop q s) = errors s"
  "downloaded (dispatchLoop q s) = downloaded s"
  "skipped (dispatchLoop q s) = skipped s"
  "outputDir (dispatchLoop q s) = outputDir s"
  "timers (dispatchLoop q s) = timers s"
  "processedIds (dispatchLoop q s) = processedIds s"
  "isScraping (dispatchLoop q s) = isScraping s"
  "canStartDownloads (dispatchLoop q s) = canStartDownloads s"
  "now (dispatchLoop q s) = now s"
  "quitCalled (dispatchLoop q s) = quitCalled s"
  by (induction q arbitrary: s; simp add: downloadFile_def)+

lemma checkQueue_frame:
  "errors (checkQueue s) = errors s"
  "downloaded (checkQueue s) = downloaded s"
  "skipped (checkQueue s) = skipped s"
  "outputDir (checkQueue s) = outputDir s"
  "timers (checkQueue s) = timers s"
  "processedIds (checkQueue s) = processedIds s"
  "isScraping (checkQueue s) = isScraping s"
  "canStartDownloads (checkQueue s) = canStartDownloads s"
  "now (checkQueue s) = now s"
  by (simp_all add: checkQueue_def dispatchLoop_frame)

text \<open>The console only grows.\<close>

lemma dispatchLoop_console_mem:
  "l \<in> set (console s) \<Longrightarrow> l \<in> set (console (dispatchLoop q s))"
  by (induction q arbitrary: s) (auto simp: downloadFile_def)

lemma checkQueue_console_mem: "l \<in> set (console s) \<Longrightarrow> l \<in> set (console (checkQueue s))"
  by (auto simp: checkQueue_def dispatchLoop_console_mem)

text \<open>When a retry timer is due.\<close>

lemma timerDue_Some:
  assumes "timerDue s t rc = Some d"
  shows "(d, t, rc) \<in> set (timers s) \<and> d \<le> now s"
proof -
  let ?P = "\<lambda>(due, t', rc'). t' = t \<and> rc' = rc \<and> due \<le> now s"
  from assms obtain x rest where f: "filter ?P (timers s) = x # rest" and d: "fst x = d"
    by (auto simp: timerDue_def split: list.splits)
  from f have "x \<in> set (filter ?P (timers s))"
    by simp
  then have "x \<in> set (timers s)" "?P x"
    by auto
  with d show ?thesis
    by (cases x) auto
qed

lemma timerDue_None:
  "(timerDue s t rc = None) =
     (\<forall>e \<in> set (timers s). fst (snd e) = t \<and> snd (snd e) = rc \<longrightarrow> now s < fst e)"
proof -
  let ?P = "\<lambda>(due, t', rc'). t' = t \<and> rc' = rc \<and> due \<le> now s"
  have "(timerDue s t rc = None) = (filter ?P (timers s) = [])"
    by (auto simp: timerDue_def split: list.splits)
  also have "\<dots> = (\<forall>e \<in> set (timers s). \<not> ?P e)"
    by (simp add: filter_empty_conv)
  also have "\<dots> = (\<forall>e \<in> set (timers s). fst (snd e) = t \<and> snd (snd e) = rc \<longrightarrow> now s < fst e)"
    by (auto simp: case_prod_beta not_le)
  finally show ?thesis .
qed

lemma response_failure: "code \<noteq> 200 \<Longrightarrow> step s (Response t rc code) = step s (RequestError t rc)"
  by simp

section \<open>Retries\<close>

text \<open>
  Claim C4 says that a failed task with attempts remaining waits a fixed delay and then
  re-enters the pending queue at its tail, to be dispatched through the queue like fresh
  work.  In the run below six posts are processed, so five downloads are active and the
  sixth task is pending.  The first download fails.  After the delay the pending queue
  still holds the sixth task only, and when the retry timer fires the first task is in
  flight again while the sixth task, pending since before the failure, still waits.
\<close>

theorem retry_skips_queue:
  "downloadQueue
     (run (started {})
        (fivePosts @
         [ProcessPost (imagePost ''6''), RequestError (imageTask ''1'') 0, Tick 2000]))
     = [imageTask ''6'']
   \<and> downloadQueue
     (run (started {})
        (fivePosts @
         [ProcessPost (imagePost ''6''), RequestError (imageTask ''1'') 0, Tick 2000,
          RetryTimer (imageTask ''1'') 1]))
     = [imageTask ''6'']
   \<and> inflight
     (run (started {})
        (fivePosts @
         [ProcessPost (imagePost ''6''), RequestError (imageTask ''1'') 0, Tick 2000,
          RetryTimer (imageTask ''1'') 1]))
     = [(imageTask ''2'', 0), (imageTask ''3'', 0), (imageTask ''4'', 0), (imageTask ''5'', 0),
        (imageTask ''1'', 1)]"
  by (simp add: harvest_defs fivePosts_def)

text \<open>
  Claim C4, amended.  When an attempt with retries remaining fails, the task does not
  re-enter the pending queue: the queue is left as it is and a timer is set for the fixed
  delay of 2000 ms with the retry count raised by one.  A failing response is handled like
  a request error.  While no timer of the task is due the retry does not run; once one is
  due, its callback dispatches the task directly: the pending queue is again left as it
  is, the timer is gone and the request of the task is in flight with the raised count.
\<close>

theorem retry_is_direct_dispatch:
  "(code \<noteq> 200 \<longrightarrow> step s (Response t rc code) = step s (RequestError t rc))
   \<and> ((t, rc) \<in> set (inflight s) \<and> rc < DOWNLOAD_RETRIES \<longrightarrow>
      downloadQueue (step s (RequestError t rc)) = downloadQueue s
      \<and> timers (step s (RequestError t rc)) = timers s @ [(now s + RETRY_DELAY_MS, t, rc + 1)])
   \<and> ((\<forall>e \<in> set (timers s). fst (snd e) = t \<and> snd (snd e) = rc \<longrightarrow> now s < fst e) \<longrightarrow>
      step s (RetryTimer t rc) = s)
   \<and> ((due, t, rc) \<in> set (timers s) \<and> due \<le> now s \<longrightarrow>
      downloadQueue (step s (RetryTimer t rc)) = downloadQueue s
      \<and> inflight (step s (RetryTimer t rc)) = inflight s @ [(t, rc)]
      \<and> Suc (length (timers (step s (RetryTimer t rc)))) = length (timers s))"
proof (intro conjI impI)
  assume "code \<noteq> 200"
  then show "step s (Response t rc code) = step s (RequestError t rc)"
    by (rule response_failure)
next
  assume a: "(t, rc) \<in> set (inflight s) \<and> rc < DOWNLOAD_RETRIES"
  then show "downloadQueue (step s (RequestError t rc)) = downloadQueue s"
    "timers (step s (RequestError t rc)) = timers s @ [(now s + RETRY_DELAY_MS, t, rc + 1)]"
    by (simp_all add: onRequestFailed_def handleDownloadError_def Let_def)
next
  assume a: "\<forall>e \<in> set (timers s). fst (snd e) = t \<and> snd (snd e) = rc \<longrightarrow> now s < fst e"
  then have "timerDue s t rc = None"
    by (simp add: timerDue_None)
  then show "step s (RetryTimer t rc) = s"
    by simp
next
  assume a: "(due, t, rc) \<in> set (timers s) \<and> due \<le> now s"
  then have "timerDue s t rc \<noteq> None"
    unfolding timerDue_None by force
  then obtain d' where td: "timerDue s t rc = Some d'"
    by auto
  then have m: "(d', t, rc) \<in> set (timers s)"
    using timerDue_Some by blast
  show "downloadQueue (step s (RetryTimer t rc)) = downloadQueue s"
    "inflight (step s (RetryTimer t rc)) = inflight s @ [(t, rc)]"
    using td by (simp_all add: downloadFile_def)
  from m have "length (timers s) > 0"
    by (auto simp: length_pos_if_in_set)
  then show "Suc (length (timers (step s (RetryTimer t rc)))) = length (timers s)"
    using td m by (simp add: downloadFile_def length_remove1)
qed

theorem retry_is_direct_dispatch_witness:
  "(500::nat) \<noteq> 200
   \<and> (imageTask ''1'', 0) \<in> set (inflight (run (started {}) [ProcessPost (imagePost ''1'')]))
   \<and> 0 < DOWNLOAD_RETRIES
   \<and> timers (run (started {}) [ProcessPost (imagePost ''1'')]) = []
   \<and> timers (step (run (started {}) [ProcessPost (imagePost ''1'')])
        (Response (imageTask ''1'') 0 500)) = [(2000, imageTask ''1'', 1)]
   \<and> downloadQueue (step (run (started {}) [ProcessPost (imagePost ''1'')])
        (RequestError (imageTask ''1'') 0)) = []
   \<and> now (run (started {}) [ProcessPost (imagePost ''1''), RequestError (imageTask ''1'') 0]) = 0
   \<and> step (run (started {}) [ProcessPost (imagePost ''1''), RequestError (imageTask ''1'') 0])
        (RetryTimer (imageTask ''1'') 1)
      = run (started {}) [ProcessPost (imagePost ''1''), RequestError (imageTask ''1'') 0]
   \<and> (2000, imageTask ''1'', 1) \<in> set (timers (run (started {})
        [ProcessPost (imagePost ''1''), RequestError (imageTask ''1'') 0, Tick 2000]))
   \<and> 2000 \<le> now (run (started {})
        [ProcessPost (imagePost ''1''), RequestError (imageTask ''1'') 0, Tick 2000])
   \<and> inflight (step (run (started {})
        [ProcessPost (imagePost ''1''), RequestError (imageTask ''1'') 0, Tick 2000])
        (RetryTimer (imageTask ''1'') 1)) = [(imageTask ''1'', 1)]
   \<and> timers (step (run (started {})
        [ProcessPost (imagePost ''1''), RequestError (imageTask ''1'') 0, Tick 2000])
        (RetryTimer (imageTask ''1'') 1)) = []"
  using retry_is_direct_dispatch [of 500 "run (started {}) [ProcessPost (imagePost ''1'')]"
      "imageTask ''1''" 0 0]
    retry_is_direct_dispatch [of 500
      "run (started {}) [ProcessPost (imagePost ''1''), RequestError (imageTask ''1'') 0]"
      "imageTask ''1''" 1 2000]
    retry_is_direct_dispatch [of 500
      "run (started {}) [ProcessPost (imagePost ''1''), RequestError (imageTask ''1'') 0, Tick 2000]"
      "imageTask ''1''" 1 2000]
  by (simp add: harvest_defs)

section \<open>Post-processing failures\<close>

lemma finalize_frame:
  "errors (finalize t oc s) = errors s"
  "timers (finalize t oc s) = timers s"
  "downloadQueue (finalize t oc s) = downloadQueue s"
  "inflight (finalize t oc s) = inflight s"
  "activeDownloads (finalize t oc s) = activeDownloads s"
  by (simp_all add: finalize_def rename_def Let_def)

lemma finalize_failed:
  assumes "\<not> finalized t oc s"
  shows "downloaded (finalize t oc s) = downloaded s"
    and "PostProcessingError (filename t) \<in> set (console (finalize t oc s))"
    and "renamed t oc s \<Longrightarrow> filename t \<in> outputDir (finalize t oc s)"
    and "\<not> renamed t oc s \<Longrightarrow> filename t \<in> tempAfterEmbed t oc s \<Longrightarrow> filename t \<notin> outputDir s
           \<Longrightarrow> fallbackRenameOk oc \<Longrightarrow> filename t \<in> outputDir (finalize t oc s)"
    and "\<not> renamed t oc s \<Longrightarrow> \<not> fallbackRenameOk oc \<Longrightarrow> outputDir (finalize t oc s) = outputDir s"
  using assms by (simp_all add: finalize_def rename_def Let_def)

text \<open>
  Claim C9 says that a task whose finalisation fails after a successful download still
  counts as completed.  In the run below the download of the only task succeeds, the
  rename succeeds and \<^verbatim>\<open>utimes\<close> throws: the file is in the output directory, yet the
  downloaded count stays 0 and the final summary reports 0 downloaded, 0 skipped, 0
  errors.
\<close>

theorem finalize_failure_not_counted:
  "downloaded
     (run (started {})
        [ProcessPost (imagePost ''1''), DiscoveryComplete,
         FileFinish (imageTask ''1'') 0 utimesFails]) = 0
   \<and> ''grok-image-1.png'' \<in> outputDir
     (run (started {})
        [ProcessPost (imagePost ''1''), DiscoveryComplete,
         FileFinish (imageTask ''1'') 0 utimesFails])
   \<and> console
     (run (started {})
        [ProcessPost (imagePost ''1''), DiscoveryComplete,
         FileFinish (imageTask ''1'') 0 utimesFails])
     = [Downloading ''grok-image-1.png'', PostProcessingError ''grok-image-1.png'',
        AllCompleted 0 0 0]"
  by (simp add: harvest_defs)

text \<open>
  Claim C9, amended.  If finalisation fails after a successful download (the
  \<^verbatim>\<open>try\<close> block does not reach its end), the task is counted neither as an error nor as
  downloaded, no retry is scheduled and a post-processing warning is printed.  The file
  is at the final path if the rename had succeeded before the failure, or if the temp
  file still exists, no file is at the final path and the raw rename of the \<^verbatim>\<open>catch\<close>
  block succeeds; if neither rename succeeds the output directory is unchanged.
\<close>

theorem finalize_failure_effects:
  assumes "(t, rc) \<in> set (inflight s)" and "\<not> finalized t oc s"
  shows "errors (step s (FileFinish t rc oc)) = errors s
    \<and> downloaded (step s (FileFinish t rc oc)) = downloaded s
    \<and> timers (step s (FileFinish t rc oc)) = timers s
    \<and> PostProcessingError (filename t) \<in> set (console (step s (FileFinish t rc oc)))
    \<and> (renamed t oc s \<longrightarrow> filename t \<in> outputDir (step s (FileFinish t rc oc)))
    \<and> (\<not> renamed t oc s \<and> filename t \<in> tempAfterEmbed t oc s \<and> filename t \<notin> outputDir s
          \<and> fallbackRenameOk oc \<longrightarrow> filename t \<in> outputDir (step s (FileFinish t rc oc)))
    \<and> (\<not> renamed t oc s \<and> \<not> fallbackRenameOk oc \<longrightarrow>
          outputDir (step s (FileFinish t rc oc)) = outputDir s)"
proof -
  let ?s0 = "s\<lparr> inflight := remove1 (t, rc) (inflight s) \<rparr>"
  let ?s1 = "finalize t oc ?s0"
  have st: "step s (FileFinish t rc oc) = checkQueue (?s1\<lparr> activeDownloads := activeDownloads ?s1 - 1 \<rparr>)"
    using assms(1) by (simp add: onFileFinish_def Let_def)
  have nf: "\<not> finalized t oc ?s0"
    using assms(2) by (simp add: finalized_def renamed_def tempAfterEmbed_def)
  have r: "renamed t oc ?s0 = renamed t oc s" "tempAfterEmbed t oc ?s0 = tempAfterEmbed t oc s"
    by (simp_all add: renamed_def tempAfterEmbed_def)
  have "PostProcessingError (filename t) \<in> set (console ?s1)"
    using finalize_failed(2) [OF nf] .
  then have c: "PostProcessingError (filename t)
      \<in> set (console (checkQueue (?s1\<lparr> activeDownloads := activeDownloads ?s1 - 1 \<rparr>)))"
    by (intro checkQueue_console_mem) simp
  show ?thesis
    unfolding st using c finalize_failed(1,3,4,5) [OF nf] r
    by (simp add: checkQueue_frame finalize_frame)
qed

theorem finalize_failure_effects_witness:
  "(imageTask ''1'', 0) \<in> set (inflight (run (started {}) [ProcessPost (imagePost ''1'')]))
   \<and> \<not> finalized (imageTask ''1'') utimesFails (run (started {}) [ProcessPost (imagePost ''1'')])
   \<and> renamed (imageTask ''1'') utimesFails (run (started {}) [ProcessPost (imagePost ''1'')])
   \<and> \<not> finalized (imageTask ''1'') renameFailsOnce (run (started {}) [ProcessPost (imagePost ''1'')])
   \<and> \<not> renamed (imageTask ''1'') renameFailsOnce (run (started {}) [ProcessPost (imagePost ''1'')])
   \<and> fallbackRenameOk renameFailsOnce
   \<and> \<not> renamed (imageTask ''1'') renameFailsTwice (run (started {}) [ProcessPost (imagePost ''1'')])
   \<and> \<not> fallbackRenameOk renameFailsTwice
   \<and> errors (step (run (started {}) [ProcessPost (imagePost ''1'')])
        (FileFinish (imageTask ''1'') 0 utimesFails)) = 0
   \<and> downloaded (step (run (started {}) [ProcessPost (imagePost ''1'')])
        (FileFinish (imageTask ''1'') 0 utimesFails)) = 0
   \<and> ''grok-image-1.png'' \<in> outputDir (step (run (started {}) [ProcessPost (imagePost ''1'')])
        (FileFinish (imageTask ''1'') 0 utimesFails))
   \<and> ''grok-image-1.png'' \<in> outputDir (step (run (started {}) [ProcessPost (imagePost ''1'')])
        (FileFinish (imageTask ''1'') 0 renameFailsOnce))
   \<and> outputDir (step (run (started {}) [ProcessPost (imagePost ''1'')])
        (FileFinish (imageTask ''1'') 0 renameFailsTwice)) = {}"
  using finalize_failure_effects [of "imageTask ''1''" 0
      "run (started {}) [ProcessPost (imagePost ''1'')]" utimesFails]
    finalize_failure_effects [of "imageTask ''1''" 0
      "run (started {}) [ProcessPost (imagePost ''1'')]" renameFailsOnce]
    finalize_failure_effects [of "imageTask ''1''" 0
      "run (started {}) [ProcessPost (imagePost ''1'')]" renameFailsTwice]
  by (simp add: harvest_defs renameFailsTwice_def)

section \<open>Runs\<close>

lemma run_Nil: "run s [] = s"
  by (simp add: run_def)

lemma run_Cons: "run s (e # evs) = run (step s e) evs"
  by (simp add: run_def)

lemma run_append: "run s (evs @ evs') = run (run s evs) evs'"
  by (simp add: run_def)

lemma run_snoc: "run s (evs @ [e]) = step (run s evs) e"
  by (simp add: run_def)

section \<open>The photo harvester: a first run and the targets after it\<close>

subsection \<open>Entries of a directory\<close>

lemma findEntry_Nil: "findEntry x [] = None"
  by (simp add: findEntry_def)

lemma findEntry_Cons:
  "findEntry x (e # es) = (if entryName e = x then Some e else findEntry x es)"
  by (simp add: findEntry_def)

lemma findEntry_name: "findEntry x es = Some e \<Longrightarrow> entryName e = x"
  by (induction es) (auto simp: findEntry_Cons findEntry_Nil split: if_splits)

lemma findEntry_mem: "findEntry x es = Some e \<Longrightarrow> e \<in> set es"
  by (induction es) (auto simp: findEntry_Cons findEntry_Nil split: if_splits)

lemma findEntry_None: "findEntry x es = None \<longleftrightarrow> x \<notin> entryName ` set es"
  by (induction es) (auto simp: findEntry_Cons findEntry_Nil)

lemma findEntry_append:
  "findEntry x (es @ es') = (case findEntry x es of None \<Rightarrow> findEntry x es' | Some e \<Rightarrow> Some e)"
  by (induction es) (auto simp: findEntry_Cons findEntry_Nil)

lemma findEntry_distinct:
  "distinct (map entryName es) \<Longrightarrow> e \<in> set es \<Longrightarrow> findEntry (entryName e) es = Some e"
  by (induction es) (auto simp: findEntry_Cons)

lemma names_modifyFirst:
  "(\<And>e. entryName e = x \<Longrightarrow> entryName (g e) = x) \<Longrightarrow>
     map entryName (modifyFirst x g es) = map entryName es"
  by (induction es) auto

lemma findEntry_modifyFirst:
  "(\<And>e. entryName e = x \<Longrightarrow> entryName (g e) = x) \<Longrightarrow>
     findEntry y (modifyFirst x g es)
       = (if y = x then map_option g (findEntry x es) else findEntry y es)"
  by (induction es) (auto simp: findEntry_Cons findEntry_Nil)

lemma modifyFirst_absent: "findEntry x es = None \<Longrightarrow> modifyFirst x g es = es"
  by (induction es) (auto simp: findEntry_Cons split: if_splits)

lemma modifyFirst_id: "findEntry x es = Some e \<Longrightarrow> g e = e \<Longrightarrow> modifyFirst x g es = es"
  by (induction es) (auto simp: findEntry_Cons split: if_splits)

lemma set_modifyFirst: "e \<in> set (modifyFirst x g es) \<Longrightarrow> e \<in> set es \<or> (\<exists>e' \<in> set es. e = g e')"
  by (induction es) (auto split: if_splits)

lemma entryName_modifyDir: "entryName (modifyDir d f e) = entryName e"
  by (cases d; cases e) simp_all

subsection \<open>Looking up paths\<close>

lemma entryAt_File: "entryAt (FileEntry n c) q = (if q = [] then Some (FileEntry n c) else None)"
  by (cases q) simp_all

lemma entryAt_append:
  "entryAt e (p @ q) = (case entryAt e p of None \<Rightarrow> None | Some e' \<Rightarrow> entryAt e' q)"
proof (induction p arbitrary: e)
  case Nil
  then show ?case by simp
next
  case (Cons x xs)
  then show ?case
    by (cases e) (simp_all split: option.splits)
qed

lemma kindAt_Nil: "kindAt e [] = (case e of FileEntry n c \<Rightarrow> Some False | DirEntry n es \<Rightarrow> Some True)"
  by (simp add: kindAt_def split: fsEntry.splits)

lemma kindAt_Cons:
  "kindAt (DirEntry n es) (x # xs) = (case findEntry x es of None \<Rightarrow> None | Some e \<Rightarrow> kindAt e xs)"
  by (simp add: kindAt_def split: option.splits)

lemma kindAt_File_Cons: "kindAt (FileEntry n c) (x # xs) = None"
  by (simp add: kindAt_def)

lemma kindAt_append:
  "kindAt e (p @ q) = (case entryAt e p of None \<Rightarrow> None | Some e' \<Rightarrow> kindAt e' q)"
  by (simp add: kindAt_def entryAt_append split: option.splits)

lemma kindAt_parent: "kindAt e (p @ x # r) \<noteq> None \<Longrightarrow> kindAt e p = Some True"
proof -
  assume a: "kindAt e (p @ x # r) \<noteq> None"
  then obtain e' where e': "entryAt e p = Some e'" "kindAt e' (x # r) \<noteq> None"
    by (auto simp: kindAt_append split: option.splits)
  then obtain n es where "e' = DirEntry n es"
    by (cases e') (auto simp: kindAt_File_Cons)
  then show ?thesis
    using e'(1) by (simp add: kindAt_def)
qed

lemma kind_modifyDir_self:
  "(case modifyDir d f e of FileEntry n c \<Rightarrow> False | DirEntry n es \<Rightarrow> True)
     = (case e of FileEntry n c \<Rightarrow> False | DirEntry n es \<Rightarrow> True)"
  by (cases d; cases e) simp_all

text \<open>A path that does not lead into the directory at \<open>d\<close> keeps its kind.\<close>

lemma kindAt_modifyDir_other:
  "\<not> (\<exists>y r. q = d @ y # r) \<Longrightarrow> kindAt (modifyDir d f e) q = kindAt e q"
proof (induction d arbitrary: e q)
  case Nil
  then have "q = []"
    by (cases q) auto
  then show ?case
    by (cases e) (simp_all add: kindAt_Nil)
next
  case (Cons x xs)
  show ?case
  proof (cases e)
    case (FileEntry n c)
    then show ?thesis by simp
  next
    case (DirEntry n es)
    show ?thesis
    proof (cases q)
      case Nil
      then show ?thesis
        using DirEntry by (simp add: kindAt_Nil)
    next
      case q: (Cons y q')
      show ?thesis
      proof (cases "y = x")
        case False
        then show ?thesis
          using DirEntry q by (simp add: kindAt_Cons findEntry_modifyFirst entryName_modifyDir)
      next
        case True
        then have n: "\<not> (\<exists>z r. q' = xs @ z # r)"
          using Cons.prems q by auto
        show ?thesis
          using DirEntry q True Cons.IH [OF n]
          by (simp add: kindAt_Cons findEntry_modifyFirst entryName_modifyDir split: option.splits)
      qed
    qed
  qed
qed

text \<open>Below the directory at \<open>d\<close> the lookup goes through the modified entries.\<close>

lemma entryAt_modifyDir_below:
  "entryAt e d = Some (DirEntry n es) \<Longrightarrow>
     entryAt (modifyDir d f e) (d @ r) = entryAt (DirEntry n (f es)) r"
proof (induction d arbitrary: e)
  case Nil
  then show ?case by simp
next
  case (Cons x xs)
  show ?case
  proof (cases e)
    case (FileEntry m c)
    then show ?thesis using Cons.prems by simp
  next
    case (DirEntry m es')
    then obtain e' where e': "findEntry x es' = Some e'" "entryAt e' xs = Some (DirEntry n es)"
      using Cons.prems by (auto split: option.splits)
    show ?thesis
      using DirEntry e' Cons.IH [OF e'(2)]
      by (simp add: findEntry_modifyFirst entryName_modifyDir)
  qed
qed

lemma kindAt_modifyDir_below:
  "entryAt e d = Some (DirEntry n es) \<Longrightarrow>
     kindAt (modifyDir d f e) (d @ y # r)
       = (case findEntry y (f es) of None \<Rightarrow> None | Some e' \<Rightarrow> kindAt e' r)"
  using entryAt_modifyDir_below [of e d n es f "y # r"]
  by (simp add: kindAt_def split: option.splits)

lemma modifyDir_noop:
  "(\<And>n es. entryAt e d \<noteq> Some (DirEntry n es)) \<Longrightarrow> modifyDir d f e = e"
proof (induction d arbitrary: e)
  case Nil
  show ?case
  proof (cases e)
    case (FileEntry m c)
    then show ?thesis by simp
  next
    case (DirEntry m es')
    then show ?thesis using Nil [of m es'] by simp
  qed
next
  case (Cons x xs)
  show ?case
  proof (cases e)
    case (FileEntry m c)
    then show ?thesis by simp
  next
    case (DirEntry m es')
    show ?thesis
    proof (cases "findEntry x es'")
      case None
      then show ?thesis
        using DirEntry by (simp add: modifyFirst_absent)
    next
      case (Some e')
      then have "\<And>n es. entryAt e' xs \<noteq> Some (DirEntry n es)"
        using Cons.prems DirEntry by simp
      then have "modifyDir xs f e' = e'"
        by (rule Cons.IH)
      then show ?thesis
        using DirEntry Some by (simp add: modifyFirst_id)
    qed
  qed
qed

subsection \<open>Well-formed trees\<close>

lemma wellFormed_entryAt: "wellFormed e \<Longrightarrow> entryAt e q = Some e' \<Longrightarrow> wellFormed e'"
proof (induction q arbitrary: e)
  case Nil
  then show ?case by simp
next
  case (Cons x xs)
  show ?case
  proof (cases e)
    case (FileEntry n c)
    then show ?thesis using Cons.prems by simp
  next
    case (DirEntry n es)
    then obtain e1 where e1: "findEntry x es = Some e1" "entryAt e1 xs = Some e'"
      using Cons.prems by (auto split: option.splits)
    have "wellFormed e1"
      using Cons.prems(1) DirEntry findEntry_mem [OF e1(1)] by simp
    then show ?thesis
      using e1(2) by (rule Cons.IH)
  qed
qed

lemma wellFormed_modifyDir:
  assumes "wellFormed e"
    and "\<And>es. distinct (map entryName es) \<Longrightarrow> (\<forall>e \<in> set es. wellFormed e) \<Longrightarrow>
           distinct (map entryName (f es)) \<and> (\<forall>e \<in> set (f es). wellFormed e)"
  shows "wellFormed (modifyDir d f e)"
  using assms(1)
proof (induction d arbitrary: e)
  case Nil
  show ?case
  proof (cases e)
    case (FileEntry n c)
    then show ?thesis by simp
  next
    case (DirEntry n es)
    then have "distinct (map entryName es)" "\<forall>e \<in> set es. wellFormed e"
      using Nil by simp_all
    then have "distinct (map entryName (f es)) \<and> (\<forall>e \<in> set (f es). wellFormed e)"
      by (rule assms(2))
    then show ?thesis
      using DirEntry by simp
  qed
next
  case (Cons x xs)
  show ?case
  proof (cases e)
    case (FileEntry n c)
    then show ?thesis by simp
  next
    case (DirEntry n es)
    have d: "distinct (map entryName (modifyFirst x (modifyDir xs f) es))"
      using Cons.prems DirEntry by (simp add: names_modifyFirst entryName_modifyDir)
    have "\<forall>e' \<in> set (modifyFirst x (modifyDir xs f) es). wellFormed e'"
    proof
      fix e'
      assume "e' \<in> set (modifyFirst x (modifyDir xs f) es)"
      then consider "e' \<in> set es" | e1 where "e1 \<in> set es" "e' = modifyDir xs f e1"
        using set_modifyFirst by blast
      then show "wellFormed e'"
      proof cases
        case 1
        then show ?thesis using Cons.prems DirEntry by simp
      next
        case 2
        then have "wellFormed e1"
          using Cons.prems DirEntry by simp
        then show ?thesis
          using 2(2) Cons.IH by simp
      qed
    qed
    then show ?thesis
      using d DirEntry by simp
  qed
qed

subsection \<open>Creating directories\<close>

lemma mkdirRecursive_there: "kindAt e d = Some True \<Longrightarrow> mkdirRecursive d e = e"
proof (induction d arbitrary: e)
  case Nil
  then show ?case by simp
next
  case (Cons x xs)
  show ?case
  proof (cases e)
    case (FileEntry n c)
    then show ?thesis by simp
  next
    case (DirEntry n es)
    then obtain e' where e': "findEntry x es = Some e'" "kindAt e' xs = Some True"
      using Cons.prems by (auto simp: kindAt_Cons split: option.splits)
    have "mkdirRecursive xs e' = e'"
      using e'(2) by (rule Cons.IH)
    then show ?thesis
      using DirEntry e'(1) by (simp add: modifyFirst_id)
  qed
qed

subsection \<open>Writing a file\<close>

lemma findEntry_putFile:
  "findEntry y (putFile x c es)
     = (if y = x
        then (case findEntry x es of
                Some (DirEntry n sub) \<Rightarrow> Some (DirEntry n sub)
              | _ \<Rightarrow> Some (FileEntry x c))
        else findEntry y es)"
proof (cases "findEntry x es")
  case None
  then show ?thesis
    by (auto simp: putFile_def findEntry_append findEntry_Cons findEntry_Nil split: option.splits)
next
  case (Some e)
  show ?thesis
  proof (cases e)
    case (FileEntry n c')
    then show ?thesis
      using Some by (simp add: putFile_def findEntry_modifyFirst)
  next
    case (DirEntry n sub)
    then show ?thesis
      using Some by (simp add: putFile_def)
  qed
qed

lemma wellFormed_putFile:
  assumes "distinct (map entryName es)" "\<forall>e \<in> set es. wellFormed e"
  shows "distinct (map entryName (putFile x c es)) \<and> (\<forall>e \<in> set (putFile x c es). wellFormed e)"
proof (cases "findEntry x es")
  case None
  then have "putFile x c es = es @ [FileEntry x c]"
    by (simp add: putFile_def)
  moreover have "x \<notin> entryName ` set es"
    using None by (simp add: findEntry_None)
  ultimately show ?thesis
    using assms by auto
next
  case (Some e)
  show ?thesis
  proof (cases e)
    case (FileEntry n c')
    have "\<forall>e' \<in> set (modifyFirst x (\<lambda>e. FileEntry x c) es). wellFormed e'"
      using assms(2) set_modifyFirst [of _ x "\<lambda>e. FileEntry x c" es] by fastforce
    then show ?thesis
      using Some FileEntry assms(1) by (simp add: putFile_def names_modifyFirst)
  next
    case (DirEntry n sub)
    then show ?thesis
      using Some assms by (simp add: putFile_def)
  qed
qed

lemma writeFile_cases:
  obtains "writeFile p c fs = fs"
  | d x n es where "fst p = d @ [x]" "entryAt fs d = Some (DirEntry n es)"
      "writeFile p c fs = modifyDir d (putFile x c) fs"
proof (cases "snd p \<or> fst p = []")
  case True
  then show ?thesis
    using that(1) by (simp add: writeFile_def)
next
  case False
  then have w: "writeFile p c fs = modifyDir (butlast (fst p)) (putFile (last (fst p)) c) fs"
    by (simp add: writeFile_def)
  have sp: "fst p = butlast (fst p) @ [last (fst p)]"
    using False by simp
  show ?thesis
  proof (cases "\<exists>n es. entryAt fs (butlast (fst p)) = Some (DirEntry n es)")
    case True
    then show ?thesis
      using that(2) sp w by blast
  next
    case False
    then have "modifyDir (butlast (fst p)) (putFile (last (fst p)) c) fs = fs"
      by (intro modifyDir_noop) auto
    then show ?thesis
      using that(1) w by simp
  qed
qed

lemma kindAt_File: "kindAt (FileEntry n c) r = (if r = [] then Some False else None)"
  by (cases r) (simp_all add: kindAt_Nil kindAt_File_Cons)

lemma writeFile_directories:
  "(kindAt (writeFile p c fs) q = Some True) = (kindAt fs q = Some True)"
proof (cases p c fs rule: writeFile_cases)
  case 1
  then show ?thesis by simp
next
  case (2 d x n es)
  show ?thesis
  proof (cases "\<exists>y r. q = d @ y # r")
    case False
    then show ?thesis
      using 2(3) by (simp add: kindAt_modifyDir_other)
  next
    case True
    then obtain y r where q: "q = d @ y # r"
      by auto
    have before: "kindAt fs q = (case findEntry y es of None \<Rightarrow> None | Some e' \<Rightarrow> kindAt e' r)"
      using 2(2) by (simp add: q kindAt_append kindAt_Cons)
    have after: "kindAt (writeFile p c fs) q
        = (case findEntry y (putFile x c es) of None \<Rightarrow> None | Some e' \<Rightarrow> kindAt e' r)"
      using 2(2,3) by (simp add: q kindAt_modifyDir_below)
    show ?thesis
      unfolding before after
      by (auto simp: findEntry_putFile kindAt_File split: option.splits fsEntry.splits)
  qed
qed

lemma writeFile_keeps:
  "kindAt fs q \<noteq> None \<Longrightarrow> kindAt (writeFile p c fs) q \<noteq> None"
proof (cases p c fs rule: writeFile_cases)
  case 1
  assume "kindAt fs q \<noteq> None"
  then show ?thesis using 1 by simp
next
  case (2 d x n es)
  assume a: "kindAt fs q \<noteq> None"
  show ?thesis
  proof (cases "\<exists>y r. q = d @ y # r")
    case False
    then show ?thesis
      using 2(3) a by (simp add: kindAt_modifyDir_other)
  next
    case True
    then obtain y r where q: "q = d @ y # r"
      by auto
    have before: "kindAt fs q = (case findEntry y es of None \<Rightarrow> None | Some e' \<Rightarrow> kindAt e' r)"
      using 2(2) by (simp add: q kindAt_append kindAt_Cons)
    have after: "kindAt (writeFile p c fs) q
        = (case findEntry y (putFile x c es) of None \<Rightarrow> None | Some e' \<Rightarrow> kindAt e' r)"
      using 2(2,3) by (simp add: q kindAt_modifyDir_below)
    show ?thesis
      using a unfolding before after
      by (auto simp: findEntry_putFile kindAt_File split: option.splits fsEntry.splits if_splits)
  qed
qed

lemma writeFile_creates:
  assumes "kindAt fs d = Some True" "kindAt fs (d @ [x]) \<noteq> Some True"
  shows "kindAt (writeFile (d @ [x], False) c fs) (d @ [x]) = Some False"
proof -
  obtain n es where d: "entryAt fs d = Some (DirEntry n es)"
    using assms(1) by (auto simp: kindAt_def split: option.splits fsEntry.splits)
  have w: "writeFile (d @ [x], False) c fs = modifyDir d (putFile x c) fs"
    by (simp add: writeFile_def)
  have before: "kindAt fs (d @ [x]) = (case findEntry x es of None \<Rightarrow> None | Some e' \<Rightarrow> kindAt e' [])"
    using d by (simp add: kindAt_append kindAt_Cons)
  have "kindAt (modifyDir d (putFile x c) fs) (d @ [x])
      = (case findEntry x (putFile x c es) of None \<Rightarrow> None | Some e' \<Rightarrow> kindAt e' [])"
    using d by (simp add: kindAt_modifyDir_below)
  then show ?thesis
    using assms(2) unfolding w before
    by (auto simp: findEntry_putFile kindAt_Nil split: option.splits fsEntry.splits)
qed

lemma wellFormed_writeFile: "wellFormed fs \<Longrightarrow> wellFormed (writeFile p c fs)"
  unfolding writeFile_def
  by (auto intro!: wellFormed_modifyDir wellFormed_putFile)

subsection \<open>Renaming within a directory\<close>

lemma findEntry_filter:
  "findEntry y (filter (\<lambda>e. entryName e \<noteq> m) es) = (if y = m then None else findEntry y es)"
  by (induction es) (auto simp: findEntry_Cons findEntry_Nil)

lemma findEntry_renamed:
  assumes "distinct (map entryName es)" "m \<notin> entryName ` set es" "n \<noteq> m"
  shows "findEntry y (modifyFirst n (setName m) es)
     = (if y = m then map_option (setName m) (findEntry n es)
        else if y = n then None else findEntry y es)"
  using assms
proof (induction es)
  case Nil
  then show ?case by (simp add: findEntry_Nil)
next
  case (Cons e es)
  have sn: "entryName (setName m e) = m"
    by (cases e) simp_all
  show ?case
  proof (cases "entryName e = n")
    case True
    then have "findEntry n es = None"
      using Cons.prems(1) by (auto simp: findEntry_None)
    moreover have "findEntry m es = None"
      using Cons.prems(2) by (auto simp: findEntry_None)
    ultimately show ?thesis
      using True Cons.prems(3) sn by (auto simp: findEntry_Cons)
  next
    case False
    have "findEntry y (modifyFirst n (setName m) es)
     = (if y = m then map_option (setName m) (findEntry n es)
        else if y = n then None else findEntry y es)"
      using Cons.prems by (intro Cons.IH) auto
    then show ?thesis
      using False Cons.prems(2) by (auto simp: findEntry_Cons)
  qed
qed

lemma distinct_renamed:
  assumes "distinct (map entryName es)" "m \<notin> entryName ` set es"
  shows "distinct (map entryName (modifyFirst n (setName m) es))"
  using assms
proof (induction es)
  case Nil
  then show ?case by simp
next
  case (Cons e es)
  have sn: "entryName (setName m e) = m"
    by (cases e) simp_all
  show ?case
  proof (cases "entryName e = n")
    case True
    then show ?thesis
      using Cons.prems sn by auto
  next
    case False
    have "distinct (map entryName (modifyFirst n (setName m) es))"
      using Cons.prems by (intro Cons.IH) auto
    moreover have "entryName e \<notin> entryName ` set (modifyFirst n (setName m) es)"
    proof
      assume "entryName e \<in> entryName ` set (modifyFirst n (setName m) es)"
      then obtain e' where e': "e' \<in> set (modifyFirst n (setName m) es)" "entryName e' = entryName e"
        by auto
      then consider "e' \<in> set es" | e1 where "e1 \<in> set es" "e' = setName m e1"
        using set_modifyFirst by blast
      then show False
      proof cases
        case 1
        then have "entryName e \<in> entryName ` set es"
          using e'(2) by (metis imageI)
        then show ?thesis using Cons.prems(1) by simp
      next
        case 2
        have "entryName (setName m e1) = m"
          by (cases e1) simp_all
        then have "entryName e' = m"
          using 2(2) by simp
        then show ?thesis
          using e'(2) Cons.prems(2) by auto
      qed
    qed
    ultimately show ?thesis
      using False by simp
  qed
qed

lemma wellFormed_setName: "wellFormed e \<Longrightarrow> wellFormed (setName m e)"
  by (cases e) simp_all

lemma wellFormed_renameEntry:
  assumes "distinct (map entryName es)" "\<forall>e \<in> set es. wellFormed e"
  shows "distinct (map entryName (renameEntry n m es))
    \<and> (\<forall>e \<in> set (renameEntry n m es). wellFormed e)"
proof -
  let ?es = "filter (\<lambda>e. entryName e \<noteq> m) es"
  have d: "distinct (map entryName ?es)"
    using assms(1) by (simp add: distinct_map_filter)
  have nm: "m \<notin> entryName ` set ?es"
    by auto
  have d': "distinct (map entryName (modifyFirst n (setName m) ?es))"
    using d nm by (rule distinct_renamed)
  have w': "\<forall>e \<in> set (modifyFirst n (setName m) ?es). wellFormed e"
  proof
    fix e
    assume "e \<in> set (modifyFirst n (setName m) ?es)"
    then consider "e \<in> set ?es" | e1 where "e1 \<in> set ?es" "e = setName m e1"
      using set_modifyFirst by blast
    then show "wellFormed e"
      using assms(2) by cases (auto simp: wellFormed_setName)
  qed
  show ?thesis
    using assms d' w' by (auto simp: renameEntry_def split: option.splits)
qed

text \<open>Renaming an entry that is not a directory, in a directory whose names are distinct.\<close>

lemma findEntry_renameEntry:
  assumes "distinct (map entryName es)" "n \<noteq> m"
    and "\<And>k sub. findEntry n es \<noteq> Some (DirEntry k sub)"
  shows "findEntry y (renameEntry n m es)
     = (case findEntry n es of
          None \<Rightarrow> findEntry y es
        | Some src \<Rightarrow>
            (case findEntry m es of
               Some (DirEntry k sub) \<Rightarrow> findEntry y es
             | _ \<Rightarrow> if y = m then Some (setName m src)
                    else if y = n then None else findEntry y es))"
proof (cases "findEntry n es")
  case None
  then show ?thesis by (simp add: renameEntry_def)
next
  case (Some src)
  then obtain k c where src: "src = FileEntry k c"
    using assms(3) by (cases src) auto
  let ?es = "filter (\<lambda>e. entryName e \<noteq> m) es"
  have d: "distinct (map entryName ?es)"
    using assms(1) by (simp add: distinct_map_filter)
  have nm: "m \<notin> entryName ` set ?es"
    by auto
  have f: "findEntry y (modifyFirst n (setName m) ?es)
     = (if y = m then map_option (setName m) (findEntry n ?es)
        else if y = n then None else findEntry y ?es)"
    using d nm assms(2) by (rule findEntry_renamed)
  have fn: "findEntry n ?es = Some src"
    using Some assms(2) by (simp add: findEntry_filter)
  show ?thesis
  proof (cases "findEntry m es")
    case None
    then show ?thesis
      using Some f fn assms(2) by (simp add: renameEntry_def findEntry_filter)
  next
    case dst: (Some dst)
    show ?thesis
    proof (cases dst)
      case (FileEntry k' c')
      then show ?thesis
        using Some dst src f fn assms(2) by (simp add: renameEntry_def findEntry_filter)
    next
      case (DirEntry k' sub)
      then show ?thesis
        using Some dst src by (simp add: renameEntry_def)
    qed
  qed
qed

subsection \<open>Hiding a metadata file\<close>

lemma hideFile_cases:
  obtains "hideFile win32 jp fs = fs"
  | d x n es where "jp = d @ [x]" "entryAt fs d = Some (DirEntry n es)"
      "hideFile win32 jp fs = modifyDir d (renameEntry x (CHR ''.'' # x)) fs"
proof (cases "win32 \<or> jp = []")
  case True
  then show ?thesis
    using that(1) by (auto simp: hideFile_def)
next
  case False
  then have w: "hideFile win32 jp fs
      = modifyDir (butlast jp) (renameEntry (last jp) (CHR ''.'' # last jp)) fs"
    by (simp add: hideFile_def)
  have sp: "jp = butlast jp @ [last jp]"
    using False by simp
  show ?thesis
  proof (cases "\<exists>n es. entryAt fs (butlast jp) = Some (DirEntry n es)")
    case True
    then show ?thesis
      using that(2) sp w by blast
  next
    case False
    then have "modifyDir (butlast jp) (renameEntry (last jp) (CHR ''.'' # last jp)) fs = fs"
      by (intro modifyDir_noop) auto
    then show ?thesis
      using that(1) w by simp
  qed
qed

lemma wellFormed_hideFile: "wellFormed fs \<Longrightarrow> wellFormed (hideFile win32 jp fs)"
  unfolding hideFile_def
  by (auto intro!: wellFormed_modifyDir wellFormed_renameEntry)

lemma hideFile_kinds:
  assumes "wellFormed fs" "kindAt fs jp \<noteq> Some True"
  shows "(kindAt (hideFile win32 jp fs) q = Some True) = (kindAt fs q = Some True)"
    and "kindAt fs q \<noteq> None \<Longrightarrow> q \<noteq> jp \<Longrightarrow> kindAt (hideFile win32 jp fs) q \<noteq> None"
proof -
  have "((kindAt (hideFile win32 jp fs) q = Some True) = (kindAt fs q = Some True))
    \<and> (kindAt fs q \<noteq> None \<longrightarrow> q \<noteq> jp \<longrightarrow> kindAt (hideFile win32 jp fs) q \<noteq> None)"
  proof (cases win32 jp fs rule: hideFile_cases)
    case 1
    then show ?thesis by simp
  next
    case (2 d x n es)
    show ?thesis
    proof (cases "\<exists>y r. q = d @ y # r")
      case False
      then show ?thesis
        using 2(3) by (simp add: kindAt_modifyDir_other)
    next
      case True
      then obtain y r where q: "q = d @ y # r"
        by auto
      have "wellFormed (DirEntry n es)"
        using assms(1) 2(2) by (rule wellFormed_entryAt)
      then have dist: "distinct (map entryName es)"
        by simp
      have src: "kindAt fs jp = (case findEntry x es of None \<Rightarrow> None | Some e' \<Rightarrow> kindAt e' [])"
        using 2(1,2) by (simp add: kindAt_append kindAt_Cons)
      have nd: "\<And>k sub. findEntry x es \<noteq> Some (DirEntry k sub)"
        using assms(2) unfolding src by (auto simp: kindAt_Nil)
      have before: "kindAt fs q = (case findEntry y es of None \<Rightarrow> None | Some e' \<Rightarrow> kindAt e' r)"
        using 2(2) by (simp add: q kindAt_append kindAt_Cons)
      have after: "kindAt (hideFile win32 jp fs) q
          = (case findEntry y (renameEntry x (CHR ''.'' # x) es) of
               None \<Rightarrow> None | Some e' \<Rightarrow> kindAt e' r)"
        using 2(2,3) by (simp add: q kindAt_modifyDir_below)
      have f: "findEntry y (renameEntry x (CHR ''.'' # x) es)
         = (case findEntry x es of
              None \<Rightarrow> findEntry y es
            | Some src \<Rightarrow>
                (case findEntry (CHR ''.'' # x) es of
                   Some (DirEntry k sub) \<Rightarrow> findEntry y es
                 | _ \<Rightarrow> if y = CHR ''.'' # x then Some (setName (CHR ''.'' # x) src)
                        else if y = x then None else findEntry y es))"
        using dist _ nd by (rule findEntry_renameEntry) simp
      have jpq: "q \<noteq> jp \<Longrightarrow> y = x \<Longrightarrow> r \<noteq> []"
        using q 2(1) by auto
      consider "findEntry x es = None" | k c where "findEntry x es = Some (FileEntry k c)"
        using nd by (cases "findEntry x es") (auto, metis fsEntry.exhaust)
      then show ?thesis
      proof cases
        case 1
        then show ?thesis
          unfolding before after f by simp
      next
        case 2
        then show ?thesis
          unfolding before after f using jpq
          by (auto simp: kindAt_File kindAt_Nil split: option.splits fsEntry.splits if_splits)
      qed
    qed
  qed
  then show "(kindAt (hideFile win32 jp fs) q = Some True) = (kindAt fs q = Some True)"
    and "kindAt fs q \<noteq> None \<Longrightarrow> q \<noteq> jp \<Longrightarrow> kindAt (hideFile win32 jp fs) q \<noteq> None"
    by simp_all
qed

subsection \<open>Targets\<close>

lemma splitSlash_plain: "CHR ''/'' \<notin> set x \<Longrightarrow> splitSlash x = [x]"
  by (induction x) auto

lemma pathJoin_plain: "plainName x \<Longrightarrow> pathJoin d x = (d @ [x], False)"
proof -
  assume p: "plainName x"
  then have "splitSlash x = [x]"
    by (simp add: plainName_def splitSlash_plain)
  moreover have "x \<noteq> []" "CHR ''/'' \<notin> set x"
    using p by (simp_all add: plainName_def)
  then have "last x \<noteq> CHR ''/''"
    using last_in_set by metis
  ultimately show ?thesis
    using p by (simp add: pathJoin_def plainName_def Let_def)
qed

lemma existsSync_kindAt: "existsSync fs (p, False) = (kindAt fs p \<noteq> None)"
  by (auto simp: existsSync_def kindAt_def split: option.splits fsEntry.splits)

lemma targetOf_cases:
  obtains "targetOf fs jp = []"
  | d t where "readJson fs jp = Some d" "truthyValue (metaUrl d)" "metaTitle d = Str t" "t \<noteq> []"
      "\<not> existsSync fs (pathJoin (butlast jp) t)"
      "targetOf fs jp
         = [\<lparr> jsonPath = jp, targetUrl = metaUrl d, title = t, mediaDate = metaFormatted d \<rparr>]"
proof (cases "readJson fs jp")
  case None
  then show ?thesis
    using that(1) by (simp add: targetOf_def)
next
  case (Some d)
  show ?thesis
  proof (cases "metaTitle d")
    case (NonString b)
    then show ?thesis
      using that(1) Some by (simp add: targetOf_def)
  next
    case (Str t)
    show ?thesis
    proof (cases "truthyValue (metaUrl d) \<and> t \<noteq> [] \<and> \<not> existsSync fs (pathJoin (butlast jp) t)")
      case True
      then show ?thesis
        using that(2) [of d t] Some Str by (simp add: targetOf_def truthyValue_def)
    next
      case False
      then show ?thesis
        using that(1) Some Str by (auto simp: targetOf_def truthyValue_def)
    qed
  qed
qed

lemma targetOf_mem:
  "tg \<in> set (targetOf fs jp) \<Longrightarrow>
     \<exists>d. readJson fs jp = Some d \<and> truthyValue (metaUrl d) \<and> metaTitle d = Str (title tg)
       \<and> title tg \<noteq> [] \<and> \<not> existsSync fs (pathJoin (butlast jp) (title tg))
       \<and> jsonPath tg = jp \<and> targetUrl tg = metaUrl d \<and> mediaDate tg = metaFormatted d"
proof (cases fs jp rule: targetOf_cases)
  case 1
  assume "tg \<in> set (targetOf fs jp)"
  then show ?thesis
    using 1 by simp
next
  case (2 d t)
  assume "tg \<in> set (targetOf fs jp)"
  then have "tg = \<lparr> jsonPath = jp, targetUrl = metaUrl d, title = t, mediaDate = metaFormatted d \<rparr>"
    using 2(6) by simp
  then have f: "jsonPath tg = jp" "targetUrl tg = metaUrl d" "title tg = t"
    "mediaDate tg = metaFormatted d"
    by simp_all
  show ?thesis
    using 2(1-5) f by simp
qed

lemma target_facts:
  assumes "getTargets fs rootDir = Some tgs" "tg \<in> set tgs"
  shows "\<exists>n es d. entryAt fs rootDir = Some (DirEntry n es) \<and> jsonPath tg \<in> set (walk rootDir es)
      \<and> readJson fs (jsonPath tg) = Some d \<and> truthyValue (metaUrl d)
      \<and> metaTitle d = Str (title tg) \<and> title tg \<noteq> []
      \<and> targetUrl tg = metaUrl d \<and> mediaDate tg = metaFormatted d"
    and "\<not> existsSync fs (pathJoin (butlast (jsonPath tg)) (title tg))"
proof -
  obtain n es where r: "entryAt fs rootDir = Some (DirEntry n es)"
    using assms(1) by (auto simp: getTargets_def split: option.splits fsEntry.splits)
  then have "tgs = concat (map (targetOf fs) (walk rootDir es))"
    using assms(1) by (simp add: getTargets_def)
  then obtain jp where jp: "jp \<in> set (walk rootDir es)" "tg \<in> set (targetOf fs jp)"
    using assms(2) by auto
  from targetOf_mem [OF jp(2)] obtain d where d: "readJson fs jp = Some d"
    "truthyValue (metaUrl d)" "metaTitle d = Str (title tg)" "title tg \<noteq> []"
    "\<not> existsSync fs (pathJoin (butlast jp) (title tg))"
    "jsonPath tg = jp" "targetUrl tg = metaUrl d" "mediaDate tg = metaFormatted d"
    by blast
  show "\<exists>n es d. entryAt fs rootDir = Some (DirEntry n es) \<and> jsonPath tg \<in> set (walk rootDir es)
      \<and> readJson fs (jsonPath tg) = Some d \<and> truthyValue (metaUrl d)
      \<and> metaTitle d = Str (title tg) \<and> title tg \<noteq> []
      \<and> targetUrl tg = metaUrl d \<and> mediaDate tg = metaFormatted d"
    using r jp(1) d by auto
  show "\<not> existsSync fs (pathJoin (butlast (jsonPath tg)) (title tg))"
    using d(5,6) by simp
qed

lemma target_found:
  assumes "entryAt fs rootDir = Some (DirEntry n es)" "jp \<in> set (walk rootDir es)"
    "readJson fs jp = Some d" "truthyValue (metaUrl d)" "metaTitle d = Str t" "t \<noteq> []"
    "\<not> existsSync fs (pathJoin (butlast jp) t)"
  shows "\<exists>tgs. getTargets fs rootDir = Some tgs
    \<and> \<lparr> jsonPath = jp, targetUrl = metaUrl d, title = t, mediaDate = metaFormatted d \<rparr> \<in> set tgs"
proof -
  have "targetOf fs jp
      = [\<lparr> jsonPath = jp, targetUrl = metaUrl d, title = t, mediaDate = metaFormatted d \<rparr>]"
    using assms(3-7) by (simp add: targetOf_def truthyValue_def)
  then have "\<lparr> jsonPath = jp, targetUrl = metaUrl d, title = t, mediaDate = metaFormatted d \<rparr>
      \<in> set (concat (map (targetOf fs) (walk rootDir es)))"
    using assms(2) by (simp, intro bexI [of _ jp]) simp_all
  then show ?thesis
    using assms(1) by (simp add: getTargets_def)
qed

lemma target_kinds:
  assumes "getTargets fs rootDir = Some tgs" "tg \<in> set tgs"
  shows "kindAt fs (jsonPath tg) = Some False"
    and "kindAt fs (butlast (jsonPath tg)) = Some True"
    and "jsonPath tg \<noteq> []"
proof -
  obtain n es d where f: "entryAt fs rootDir = Some (DirEntry n es)"
    "readJson fs (jsonPath tg) = Some d"
    using target_facts(1) [OF assms] by blast
  show k: "kindAt fs (jsonPath tg) = Some False"
    using f(2) by (auto simp: readJson_def kindAt_def split: option.splits fsEntry.splits)
  have "\<exists>m es'. fs = DirEntry m es'"
    using f(1) by (cases fs) (auto simp: entryAt_File split: if_splits)
  then have "kindAt fs [] = Some True"
    by (auto simp: kindAt_Nil)
  then show ne: "jsonPath tg \<noteq> []"
    using k by auto
  then have "jsonPath tg = butlast (jsonPath tg) @ last (jsonPath tg) # []"
    by simp
  then have "kindAt fs (butlast (jsonPath tg) @ last (jsonPath tg) # []) \<noteq> None"
    using k by simp
  then show "kindAt fs (butlast (jsonPath tg)) = Some True"
    by (rule kindAt_parent)
qed

subsection \<open>The steps of a first run\<close>

lemma step_keeps_directories:
  assumes "getTargets fs0 rootDir = Some tgs" "list_ex (\<lambda>t. stepOf t st) tgs"
    and "wellFormed fs" "\<And>q. (kindAt fs q = Some True) = (kindAt fs0 q = Some True)"
  shows "wellFormed (fsStepApply win32 fs st)"
    and "(kindAt (fsStepApply win32 fs st) q = Some True) = (kindAt fs0 q = Some True)"
    and "kindAt fs p \<noteq> None \<Longrightarrow> kindAt fs0 p = None \<Longrightarrow> kindAt (fsStepApply win32 fs st) p \<noteq> None"
proof -
  obtain t where t: "t \<in> set tgs" "stepOf t st"
    using assms(2) by (auto simp: list_ex_iff)
  note k = target_kinds [OF assms(1) t(1)]
  have "wellFormed (fsStepApply win32 fs st)
    \<and> ((kindAt (fsStepApply win32 fs st) q = Some True) = (kindAt fs0 q = Some True))
    \<and> (kindAt fs p \<noteq> None \<longrightarrow> kindAt fs0 p = None \<longrightarrow> kindAt (fsStepApply win32 fs st) p \<noteq> None)"
  proof (cases st)
    case (Mkdir d)
    then have "kindAt fs d = Some True"
      using t(2) k(2) assms(4) by simp
    then have "mkdirRecursive d fs = fs"
      by (rule mkdirRecursive_there)
    then show ?thesis
      using Mkdir assms(3,4) by simp
  next
    case (Save d name c)
    then show ?thesis
      using assms(3,4) by (simp add: wellFormed_writeFile writeFile_directories writeFile_keeps)
  next
    case (Hide jp)
    then have jp: "jp = jsonPath t"
      using t(2) by simp
    have nd: "kindAt fs jp \<noteq> Some True"
      using k(1) assms(4) [of jp] jp by simp
    have "kindAt fs0 p = None \<longrightarrow> p \<noteq> jp"
      using k(1) jp by auto
    then show ?thesis
      using Hide assms(3,4) hideFile_kinds [OF assms(3) nd]
      by (simp add: wellFormed_hideFile)
  qed
  then show "wellFormed (fsStepApply win32 fs st)"
    and "(kindAt (fsStepApply win32 fs st) q = Some True) = (kindAt fs0 q = Some True)"
    and "kindAt fs p \<noteq> None \<Longrightarrow> kindAt fs0 p = None \<Longrightarrow> kindAt (fsStepApply win32 fs st) p \<noteq> None"
    by simp_all
qed

lemma photoRun_Nil: "photoRun win32 fs [] = fs"
  by (simp add: photoRun_def)

lemma photoRun_Cons: "photoRun win32 fs (st # steps) = photoRun win32 (fsStepApply win32 fs st) steps"
  by (simp add: photoRun_def)

lemma photoRun_append:
  "photoRun win32 fs (a @ b) = photoRun win32 (photoRun win32 fs a) b"
  by (simp add: photoRun_def)

lemma run_keeps_directories:
  assumes "getTargets fs0 rootDir = Some tgs" "\<forall>st \<in> set steps. list_ex (\<lambda>t. stepOf t st) tgs"
    and "wellFormed fs" "\<And>q. (kindAt fs q = Some True) = (kindAt fs0 q = Some True)"
  shows "wellFormed (photoRun win32 fs steps)
    \<and> (\<forall>q. (kindAt (photoRun win32 fs steps) q = Some True) = (kindAt fs0 q = Some True))
    \<and> (kindAt fs p \<noteq> None \<longrightarrow> kindAt fs0 p = None \<longrightarrow> kindAt (photoRun win32 fs steps) p \<noteq> None)"
  using assms(2-)
proof (induction steps arbitrary: fs)
  case Nil
  then show ?case by (simp add: photoRun_Nil)
next
  case (Cons st steps)
  have s: "list_ex (\<lambda>t. stepOf t st) tgs"
    using Cons.prems(1) by simp
  note k = step_keeps_directories [OF assms(1) s Cons.prems(2,3)]
  have "wellFormed (photoRun win32 (fsStepApply win32 fs st) steps)
    \<and> (\<forall>q. (kindAt (photoRun win32 (fsStepApply win32 fs st) steps) q = Some True)
            = (kindAt fs0 q = Some True))
    \<and> (kindAt (fsStepApply win32 fs st) p \<noteq> None \<longrightarrow> kindAt fs0 p = None \<longrightarrow>
         kindAt (photoRun win32 (fsStepApply win32 fs st) steps) p \<noteq> None)"
    using Cons.prems(1) k(1,2) by (intro Cons.IH) simp_all
  then show ?case
    using k(3) [of p] by (auto simp: photoRun_Cons)
qed

lemma saved_under_title:
  assumes "wellFormed fs" "getTargets fs rootDir = Some tgs" "tg \<in> set tgs"
    and "\<forall>st \<in> set steps. list_ex (\<lambda>t. stepOf t st) tgs"
    and "Save (butlast (jsonPath tg)) name c \<in> set steps" "plainName name"
    and "pathJoin (butlast (jsonPath tg)) (title tg) = pathJoin (butlast (jsonPath tg)) name"
  shows "existsSync (photoRun win32 fs steps) (pathJoin (butlast (jsonPath tg)) (title tg))"
proof -
  let ?d = "butlast (jsonPath tg)"
  let ?p = "?d @ [name]"
  have pj: "pathJoin ?d name = (?p, False)"
    using assms(6) by (rule pathJoin_plain)
  have absent: "kindAt fs ?p = None"
    using target_facts(2) [OF assms(2,3)] assms(7) pj by (simp add: existsSync_kindAt)
  obtain a b where ab: "steps = a @ Save ?d name c # b"
    using assms(5) by (meson split_list)
  have sa: "\<forall>st \<in> set a. list_ex (\<lambda>t. stepOf t st) tgs"
    and sb: "\<forall>st \<in> set b. list_ex (\<lambda>t. stepOf t st) tgs"
    using assms(4) ab by simp_all
  let ?fs1 = "photoRun win32 fs a"
  have i1: "wellFormed ?fs1" "\<And>q. (kindAt ?fs1 q = Some True) = (kindAt fs q = Some True)"
    using run_keeps_directories [OF assms(2) sa assms(1), of win32] by simp_all
  let ?fs2 = "writeFile (?p, False) c ?fs1"
  have d1: "kindAt ?fs1 ?d = Some True"
    using i1(2) target_kinds(2) [OF assms(2,3)] by simp
  have p1: "kindAt ?fs1 ?p \<noteq> Some True"
    using i1(2) [of ?p] absent by simp
  have here: "kindAt ?fs2 ?p \<noteq> None"
    using writeFile_creates [OF d1 p1, of c] by simp
  have i2: "wellFormed ?fs2" "\<And>q. (kindAt ?fs2 q = Some True) = (kindAt fs q = Some True)"
    using i1 by (simp_all add: wellFormed_writeFile writeFile_directories)
  have "kindAt (photoRun win32 ?fs2 b) ?p \<noteq> None"
    using run_keeps_directories [OF assms(2) sb i2, of win32 ?p] here absent by simp
  moreover have "photoRun win32 fs steps = photoRun win32 ?fs2 b"
    by (simp add: ab photoRun_append photoRun_Cons pj)
  ultimately show ?thesis
    using assms(7) pj by (simp add: existsSync_kindAt)
qed

section \<open>A second run over the files of the first\<close>

lemma fold_addToQueue_present:
  "\<forall>t \<in> set ts. filename t \<in> outputDir s \<Longrightarrow>
     fold addToQueue ts s = s\<lparr> skipped := skipped s + length ts \<rparr>"
  by (induction ts arbitrary: s) (simp_all add: addToQueue_def)

lemma idle_checkQueue: "idle dir s \<Longrightarrow> idle dir (checkQueue s)"
  by (simp add: idle_def checkQueue_def)

lemma idle_processPost:
  assumes "idle dir s" and "\<forall>t \<in> set (postTasks p). filename t \<in> dir"
  shows "idle dir (processPost p s)"
proof (cases "postId p \<in> processedIds s")
  case True
  then show ?thesis using assms(1) by (simp add: processPost_def)
next
  case False
  let ?s0 = "s\<lparr> processedIds := insert (postId p) (processedIds s), found := Suc (found s) \<rparr>"
  have "\<forall>t \<in> set (postTasks p). filename t \<in> outputDir ?s0"
    using assms by (simp add: idle_def)
  then have f: "fold addToQueue (postTasks p) ?s0 = ?s0\<lparr> skipped := skipped ?s0 + length (postTasks p) \<rparr>"
    by (rule fold_addToQueue_present)
  have "idle dir (?s0\<lparr> skipped := skipped ?s0 + length (postTasks p) \<rparr>)"
    using assms(1) by (simp add: idle_def)
  then show ?thesis
    using False by (simp add: processPost_def f idle_checkQueue)
qed

lemma idle_step:
  assumes "idle dir s" and "\<And>p. e = ProcessPost p \<Longrightarrow> \<forall>t \<in> set (postTasks p). filename t \<in> dir"
  shows "idle dir (step s e)"
proof (cases e)
  case (ProcessPost p)
  then show ?thesis using assms idle_processPost by simp
next
  case DiscoveryComplete
  have "idle dir (s\<lparr> isScraping := False \<rparr>)"
    using assms(1) by (simp add: idle_def)
  then show ?thesis
    using DiscoveryComplete assms(1) by (simp add: idle_checkQueue)
next
  case (RetryTimer t rc)
  have "timerDue s t rc = None"
    using assms(1) by (simp add: idle_def timerDue_def)
  then show ?thesis using RetryTimer assms(1) by simp
qed (use assms(1) in \<open>simp_all add: idle_def startApiHarvest_def Let_def\<close>)

lemma idle_run:
  assumes "idle dir s"
    and "\<forall>p. ProcessPost p \<in> set evs \<longrightarrow> (\<forall>t \<in> set (postTasks p). filename t \<in> dir)"
  shows "idle dir (run s evs)"
  using assms
proof (induction evs arbitrary: s)
  case Nil
  then show ?case by (simp add: run_Nil)
next
  case (Cons e evs)
  have "idle dir (step s e)"
    using Cons.prems by (intro idle_step) auto
  then show ?case
    using Cons by (simp add: run_Cons)
qed

lemma idle_init: "idle dir (init dir)"
  by (simp add: idle_def init_def)

text \<open>The canonical second run: every post of the candidate set, then the end of discovery.\<close>

lemma processPost_present:
  assumes "idle dir s" "isScraping s" "postId p \<notin> processedIds s"
    and "\<forall>t \<in> set (postTasks p). filename t \<in> dir"
  shows "processPost p s =
     s\<lparr> processedIds := insert (postId p) (processedIds s), found := Suc (found s),
        skipped := skipped s + length (postTasks p) \<rparr>"
proof -
  let ?s0 = "s\<lparr> processedIds := insert (postId p) (processedIds s), found := Suc (found s) \<rparr>"
  have "\<forall>t \<in> set (postTasks p). filename t \<in> outputDir ?s0"
    using assms by (simp add: idle_def)
  then have f: "fold addToQueue (postTasks p) ?s0 = ?s0\<lparr> skipped := skipped ?s0 + length (postTasks p) \<rparr>"
    by (rule fold_addToQueue_present)
  show ?thesis
    using assms(1,2,3) by (simp add: processPost_def f checkQueue_def idle_def)
qed

lemma run_posts_present:
  assumes "idle dir s" "isScraping s" "distinct (map postId posts)"
    and "\<forall>p \<in> set posts. postId p \<notin> processedIds s"
    and "\<forall>p \<in> set posts. \<forall>t \<in> set (postTasks p). filename t \<in> dir"
  shows "skipped (run s (map ProcessPost posts)) = skipped s + length (concat (map postTasks posts))
    \<and> isScraping (run s (map ProcessPost posts))
    \<and> canStartDownloads (run s (map ProcessPost posts)) = canStartDownloads s
    \<and> idle dir (run s (map ProcessPost posts))"
  using assms
proof (induction posts arbitrary: s)
  case Nil
  then show ?case by (simp add: run_Nil)
next
  case (Cons p posts)
  let ?s1 = "s\<lparr> processedIds := insert (postId p) (processedIds s), found := Suc (found s),
        skipped := skipped s + length (postTasks p) \<rparr>"
  have pp: "processPost p s = ?s1"
    using Cons.prems by (intro processPost_present) auto
  have i1: "idle dir ?s1" "isScraping ?s1"
    using Cons.prems by (simp_all add: idle_def)
  have "postId p \<notin> postId ` set posts"
    using Cons.prems(3) by simp
  then have "\<forall>q \<in> set posts. postId q \<noteq> postId p"
    by (metis imageI)
  then have n1: "\<forall>q \<in> set posts. postId q \<notin> processedIds ?s1"
    using Cons.prems(4) by simp
  have "skipped (run ?s1 (map ProcessPost posts)) = skipped ?s1 + length (concat (map postTasks posts))
    \<and> isScraping (run ?s1 (map ProcessPost posts))
    \<and> canStartDownloads (run ?s1 (map ProcessPost posts)) = canStartDownloads ?s1
    \<and> idle dir (run ?s1 (map ProcessPost posts))"
    using Cons.prems by (intro Cons.IH i1 n1) auto
  then show ?case
    using Cons.prems(2) by (simp add: run_Cons pp)
qed

lemma idle_no_download: "idle dir s \<Longrightarrow> Downloading fn \<notin> set (console s)"
  by (auto simp: idle_def list_all_iff)

lemma started_idle:
  "idle dir (started dir) \<and> isScraping (started dir) \<and> canStartDownloads (started dir)
   \<and> processedIds (started dir) = {} \<and> skipped (started dir) = 0"
  by (simp add: started_def run_def init_def idle_def startApiHarvest_def)

lemma api_second_run:
  assumes "\<forall>p \<in> set posts. \<forall>t \<in> set (postTasks p). filename t \<in> outputDir (run (init dir) firstRun)"
  shows "(\<forall>evs. (\<forall>p. ProcessPost p \<in> set evs \<longrightarrow> p \<in> set posts) \<longrightarrow>
            downloaded (secondRun (run (init dir) firstRun) evs) = 0
            \<and> downloadQueue (secondRun (run (init dir) firstRun) evs) = []
            \<and> inflight (secondRun (run (init dir) firstRun) evs) = []
            \<and> (\<forall>fn. Downloading fn \<notin> set (console (secondRun (run (init dir) firstRun) evs))))
    \<and> (distinct (map postId posts) \<longrightarrow>
          skipped (secondRun (run (init dir) firstRun)
             ([AppReady True, HeadersCaptured] @ map ProcessPost posts @ [DiscoveryComplete]))
            = length (concat (map postTasks posts))
          \<and> downloaded (secondRun (run (init dir) firstRun)
             ([AppReady True, HeadersCaptured] @ map ProcessPost posts @ [DiscoveryComplete])) = 0
          \<and> quitCalled (secondRun (run (init dir) firstRun)
             ([AppReady True, HeadersCaptured] @ map ProcessPost posts @ [DiscoveryComplete])))"
proof (intro conjI allI impI)
  define D where "D = outputDir (run (init dir) firstRun)"
  have present: "\<forall>p \<in> set posts. \<forall>t \<in> set (postTasks p). filename t \<in> D"
    using assms by (simp add: D_def)
  {
    fix evs
    assume "\<forall>p. ProcessPost p \<in> set evs \<longrightarrow> p \<in> set posts"
    then have "idle D (run (init D) evs)"
      using present by (intro idle_run idle_init) blast
    then have "idle D (secondRun (run (init dir) firstRun) evs)"
      by (simp add: secondRun_def D_def)
  }
  note i = this
  {
    fix evs
    assume a: "\<forall>p. ProcessPost p \<in> set evs \<longrightarrow> p \<in> set posts"
    show "downloaded (secondRun (run (init dir) firstRun) evs) = 0"
      "downloadQueue (secondRun (run (init dir) firstRun) evs) = []"
      "inflight (secondRun (run (init dir) firstRun) evs) = []"
      using i [OF a] by (simp_all add: idle_def)
    fix fn
    show "Downloading fn \<notin> set (console (secondRun (run (init dir) firstRun) evs))"
      using i [OF a] by (rule idle_no_download)
  }
  assume d: "distinct (map postId posts)"
  let ?s = "run (started D) (map ProcessPost posts)"
  have r: "skipped ?s = skipped (started D) + length (concat (map postTasks posts))
    \<and> isScraping ?s \<and> canStartDownloads ?s = canStartDownloads (started D) \<and> idle D ?s"
    using started_idle [of D] d present by (intro run_posts_present) auto
  have e: "secondRun (run (init dir) firstRun)
             ([AppReady True, HeadersCaptured] @ map ProcessPost posts @ [DiscoveryComplete])
           = checkQueue (?s\<lparr> isScraping := False \<rparr>)"
  proof -
    have "run (init D) ([AppReady True, HeadersCaptured] @ map ProcessPost posts @ [DiscoveryComplete])
        = step ?s DiscoveryComplete"
      by (simp only: run_append run_Cons run_Nil started_def)
    then show ?thesis
      using r by (simp add: secondRun_def D_def)
  qed
  have q: "downloadQueue ?s = []" "activeDownloads ?s = 0" "downloaded ?s = 0" "canStartDownloads ?s"
    using r started_idle [of D] by (simp_all add: idle_def)
  show "skipped (secondRun (run (init dir) firstRun)
             ([AppReady True, HeadersCaptured] @ map ProcessPost posts @ [DiscoveryComplete]))
            = length (concat (map postTasks posts))"
    unfolding e using r started_idle [of D] by (simp add: checkQueue_frame)
  show "downloaded (secondRun (run (init dir) firstRun)
             ([AppReady True, HeadersCaptured] @ map ProcessPost posts @ [DiscoveryComplete])) = 0"
    unfolding e using q by (simp add: checkQueue_frame)
  show "quitCalled (secondRun (run (init dir) firstRun)
             ([AppReady True, HeadersCaptured] @ map ProcessPost posts @ [DiscoveryComplete]))"
    unfolding e using q by (simp add: checkQueue_def)
qed

lemma postId_imagePost: "postId (imagePost i) = i"
  by (simp add: imagePost_def)

lemma firstRunOfTwo_files:
  "outputDir (run (init {}) firstRunOfTwo) = {''grok-image-2.png'', ''grok-image-1.png''}"
  by (simp add: harvest_defs firstRunOfTwo_def)

lemmas photo_defs =
  getTargets_def targetOf_def readJson_def existsSync_def pathJoin_def findEntry_def
  endsWith_def truthyValue_def photoRun_def processTarget_def writeFile_def hideFile_def
  putFile_def renameEntry_def metaA_def metaB_def targetA_def Let_def

lemma orphan_targets: "getTargets orphan [''photos''] = Some [targetA]"
  by (simp add: orphan_def photo_defs)

lemma orphan_first_run:
  "photoRun False orphan (processTarget targetA (Some (''IMG_0001.jpg'', None)))
     = DirEntry []
         [DirEntry ''photos''
            [DirEntry ''2019''
               [FileEntry ''.a.jpg.json'' (Some metaA), FileEntry ''IMG_0001.jpg'' None]]]"
  by (simp add: orphan_def photo_defs)

lemma orphan_first_run_win32:
  "photoRun True orphan (processTarget targetA (Some (''IMG_0001.jpg'', None)))
     = DirEntry []
         [DirEntry ''photos''
            [DirEntry ''2019''
               [FileEntry ''a.jpg.json'' (Some metaA), FileEntry ''IMG_0001.jpg'' None]]]"
  by (simp add: orphan_def photo_defs)

text \<open>
  Claim C2 says that a second run over the same destination downloads nothing when every
  task of the first run completed.  The photo harvester looks for the photo of a metadata
  file under the title the metadata gives, while the download is saved under the name the
  server gives.  In the run below the only target is downloaded and saved as
  \<^verbatim>\<open>IMG_0001.jpg\<close> and its metadata file is hidden; the hidden file still ends in
  \<^verbatim>\<open>.json\<close> and nothing is there under its title \<^verbatim>\<open>a.jpg\<close>, so the second run has the
  same target again (on Windows too, where the metadata file keeps its name).
\<close>

theorem photo_second_run_downloads_again:
  "getTargets orphan [''photos''] = Some [targetA]
   \<and> getTargets
        (photoRun False orphan (processTarget targetA (Some (''IMG_0001.jpg'', None))))
        [''photos'']
      = Some [targetA\<lparr> jsonPath := [''photos'', ''2019'', ''.a.jpg.json''] \<rparr>]
   \<and> getTargets
        (photoRun True orphan (processTarget targetA (Some (''IMG_0001.jpg'', None))))
        [''photos'']
      = Some [targetA]"
  unfolding orphan_first_run orphan_first_run_win32
  by (simp add: orphan_targets) (simp add: photo_defs)

lemma album_facts:
  "wellFormed album
   \<and> getTargets album [''photos''] = Some [targetA]
   \<and> jsonPath targetA = [''photos'', ''2019'', ''a.jpg.json'']
   \<and> butlast (jsonPath targetA) = [''photos'', ''2019''] \<and> title targetA = ''a.jpg''
   \<and> processTarget targetA (Some (''a.jpg'', None))
       = [Mkdir [''photos'', ''2019''], Save [''photos'', ''2019''] ''a.jpg'' None,
          Hide [''photos'', ''2019'', ''a.jpg.json'']]
   \<and> plainName ''a.jpg''
   \<and> pathJoin [''photos'', ''2019''] ''a.jpg'' = ([''photos'', ''2019'', ''a.jpg''], False)"
  by (simp add: album_def photo_defs plainName_def)

lemma album_first_run:
  "photoRun False album (processTarget targetA (Some (''a.jpg'', None)))
     = DirEntry []
         [DirEntry ''photos''
            [DirEntry ''2019''
               [FileEntry ''.a.jpg.json'' (Some metaA), FileEntry ''b.jpg.json'' (Some metaB),
                FileEntry ''b.jpg'' None, FileEntry ''a.jpg'' None]]]"
  by (simp add: album_def photo_defs)

lemma album_second_run:
  "getTargets (photoRun False album (processTarget targetA (Some (''a.jpg'', None)))) [''photos'']
     = Some []"
  unfolding album_first_run by (simp add: photo_defs)

text \<open>
  Claim C2, amended.  Let a first run of the API harvester leave the file of every task of
  a candidate set of posts in the output directory (every task completed).  Then in a
  second run over that directory that discovers only posts of the set, whatever the order
  of events, nothing is ever queued, sent or downloaded; and when the second run processes
  the posts of the set (each once) and discovery ends, every task has been skipped: the
  skipped count is the number of tasks, the downloaded count is zero, and the run ends.
  The photo harvester detects a candidate as present by the title in its metadata file: a
  metadata file with a url and a title is a target of a run exactly when nothing exists
  under that title beside it.  So when a first run, whatever the order of the steps of its
  targets, has saved the download of a target under a file name that its title names,
  something exists under the title afterwards, and no metadata file of that directory with
  that title is a target of a later run.
\<close>

theorem second_run_skips_everything:
  assumes "\<forall>p \<in> set posts. \<forall>t \<in> set (postTasks p). filename t \<in> outputDir (run (init dir) firstRun)"
  shows "(\<forall>evs. (\<forall>p. ProcessPost p \<in> set evs \<longrightarrow> p \<in> set posts) \<longrightarrow>
            downloaded (secondRun (run (init dir) firstRun) evs) = 0
            \<and> downloadQueue (secondRun (run (init dir) firstRun) evs) = []
            \<and> inflight (secondRun (run (init dir) firstRun) evs) = []
            \<and> (\<forall>fn. Downloading fn \<notin> set (console (secondRun (run (init dir) firstRun) evs))))
    \<and> (distinct (map postId posts) \<longrightarrow>
          skipped (secondRun (run (init dir) firstRun)
             ([AppReady True, HeadersCaptured] @ map ProcessPost posts @ [DiscoveryComplete]))
            = length (concat (map postTasks posts))
          \<and> downloaded (secondRun (run (init dir) firstRun)
             ([AppReady True, HeadersCaptured] @ map ProcessPost posts @ [DiscoveryComplete])) = 0
          \<and> quitCalled (secondRun (run (init dir) firstRun)
             ([AppReady True, HeadersCaptured] @ map ProcessPost posts @ [DiscoveryComplete])))
    \<and> (getTargets fs rootDir = Some tgs \<and> tg \<in> set tgs \<longrightarrow>
          (\<exists>k entries m. entryAt fs rootDir = Some (DirEntry k entries)
             \<and> jsonPath tg \<in> set (walk rootDir entries)
             \<and> readJson fs (jsonPath tg) = Some m \<and> truthyValue (metaUrl m)
             \<and> metaTitle m = Str (title tg) \<and> title tg \<noteq> []
             \<and> targetUrl tg = metaUrl m \<and> mediaDate tg = metaFormatted m)
          \<and> \<not> existsSync fs (pathJoin (butlast (jsonPath tg)) (title tg)))
    \<and> (entryAt fs rootDir = Some (DirEntry n es) \<and> jp \<in> set (walk rootDir es)
          \<and> readJson fs jp = Some meta \<and> truthyValue (metaUrl meta) \<and> metaTitle meta = Str ttl
          \<and> ttl \<noteq> [] \<and> \<not> existsSync fs (pathJoin (butlast jp) ttl) \<longrightarrow>
          (\<exists>tgs'. getTargets fs rootDir = Some tgs'
             \<and> \<lparr> jsonPath = jp, targetUrl = metaUrl meta, title = ttl,
                  mediaDate = metaFormatted meta \<rparr> \<in> set tgs'))
    \<and> (wellFormed fs \<and> getTargets fs rootDir = Some tgs \<and> tg \<in> set tgs
          \<and> (\<forall>st \<in> set steps. list_ex (\<lambda>t. stepOf t st) tgs)
          \<and> Save (butlast (jsonPath tg)) name c \<in> set steps \<and> plainName name
          \<and> pathJoin (butlast (jsonPath tg)) (title tg) = pathJoin (butlast (jsonPath tg)) name \<longrightarrow>
          existsSync (photoRun win32 fs steps) (pathJoin (butlast (jsonPath tg)) (title tg))
          \<and> (\<forall>rootDir' tgs' tg'.
                getTargets (photoRun win32 fs steps) rootDir' = Some tgs' \<and> tg' \<in> set tgs' \<longrightarrow>
                \<not> (butlast (jsonPath tg') = butlast (jsonPath tg) \<and> title tg' = title tg)))"
proof -
  note api = api_second_run [OF assms]
  have absent: "getTargets fs rootDir = Some tgs \<and> tg \<in> set tgs \<longrightarrow>
          (\<exists>k entries m. entryAt fs rootDir = Some (DirEntry k entries)
             \<and> jsonPath tg \<in> set (walk rootDir entries)
             \<and> readJson fs (jsonPath tg) = Some m \<and> truthyValue (metaUrl m)
             \<and> metaTitle m = Str (title tg) \<and> title tg \<noteq> []
             \<and> targetUrl tg = metaUrl m \<and> mediaDate tg = metaFormatted m)
          \<and> \<not> existsSync fs (pathJoin (butlast (jsonPath tg)) (title tg))"
    using target_facts [of fs rootDir tgs tg] by blast
  have found: "entryAt fs rootDir = Some (DirEntry n es) \<and> jp \<in> set (walk rootDir es)
          \<and> readJson fs jp = Some meta \<and> truthyValue (metaUrl meta) \<and> metaTitle meta = Str ttl
          \<and> ttl \<noteq> [] \<and> \<not> existsSync fs (pathJoin (butlast jp) ttl) \<longrightarrow>
          (\<exists>tgs'. getTargets fs rootDir = Some tgs'
             \<and> \<lparr> jsonPath = jp, targetUrl = metaUrl meta, title = ttl,
                  mediaDate = metaFormatted meta \<rparr> \<in> set tgs')"
    using target_found [of fs rootDir n es jp meta ttl] by blast
  have saved: "wellFormed fs \<and> getTargets fs rootDir = Some tgs \<and> tg \<in> set tgs
          \<and> (\<forall>st \<in> set steps. list_ex (\<lambda>t. stepOf t st) tgs)
          \<and> Save (butlast (jsonPath tg)) name c \<in> set steps \<and> plainName name
          \<and> pathJoin (butlast (jsonPath tg)) (title tg) = pathJoin (butlast (jsonPath tg)) name \<longrightarrow>
          existsSync (photoRun win32 fs steps) (pathJoin (butlast (jsonPath tg)) (title tg))
          \<and> (\<forall>rootDir' tgs' tg'.
                getTargets (photoRun win32 fs steps) rootDir' = Some tgs' \<and> tg' \<in> set tgs' \<longrightarrow>
                \<not> (butlast (jsonPath tg') = butlast (jsonPath tg) \<and> title tg' = title tg))"
  proof (intro impI)
    assume h: "wellFormed fs \<and> getTargets fs rootDir = Some tgs \<and> tg \<in> set tgs
          \<and> (\<forall>st \<in> set steps. list_ex (\<lambda>t. stepOf t st) tgs)
          \<and> Save (butlast (jsonPath tg)) name c \<in> set steps \<and> plainName name
          \<and> pathJoin (butlast (jsonPath tg)) (title tg) = pathJoin (butlast (jsonPath tg)) name"
    then have e: "existsSync (photoRun win32 fs steps) (pathJoin (butlast (jsonPath tg)) (title tg))"
      using saved_under_title [of fs rootDir tgs tg steps name c win32] by blast
    have "\<forall>rootDir' tgs' tg'.
        getTargets (photoRun win32 fs steps) rootDir' = Some tgs' \<and> tg' \<in> set tgs' \<longrightarrow>
        \<not> (butlast (jsonPath tg') = butlast (jsonPath tg) \<and> title tg' = title tg)"
    proof (intro allI impI notI)
      fix rootDir' tgs' tg'
      assume t: "getTargets (photoRun win32 fs steps) rootDir' = Some tgs' \<and> tg' \<in> set tgs'"
        and same: "butlast (jsonPath tg') = butlast (jsonPath tg) \<and> title tg' = title tg"
      have "\<not> existsSync (photoRun win32 fs steps) (pathJoin (butlast (jsonPath tg')) (title tg'))"
        using t target_facts(2) by blast
      then show False
        using e same by simp
    qed
    then show "existsSync (photoRun win32 fs steps) (pathJoin (butlast (jsonPath tg)) (title tg))
          \<and> (\<forall>rootDir' tgs' tg'.
                getTargets (photoRun win32 fs steps) rootDir' = Some tgs' \<and> tg' \<in> set tgs' \<longrightarrow>
                \<not> (butlast (jsonPath tg') = butlast (jsonPath tg) \<and> title tg' = title tg))"
      using e by simp
  qed
  show ?thesis
    using api absent found saved by blast
qed

theorem second_run_skips_everything_witness:
  "filename (imageTask ''1'') \<in> outputDir (run (init {}) firstRunOfTwo)
   \<and> filename (imageTask ''2'') \<in> outputDir (run (init {}) firstRunOfTwo)
   \<and> downloaded (run (init {}) firstRunOfTwo) = 2
   \<and> distinct (map postId [imagePost ''1'', imagePost ''2''])
   \<and> skipped (secondRun (run (init {}) firstRunOfTwo)
        [AppReady True, HeadersCaptured, ProcessPost (imagePost ''1''),
         ProcessPost (imagePost ''2''), DiscoveryComplete]) = 2
   \<and> downloaded (secondRun (run (init {}) firstRunOfTwo)
        [AppReady True, HeadersCaptured, ProcessPost (imagePost ''1''),
         ProcessPost (imagePost ''2''), DiscoveryComplete]) = 0
   \<and> quitCalled (secondRun (run (init {}) firstRunOfTwo)
        [AppReady True, HeadersCaptured, ProcessPost (imagePost ''1''),
         ProcessPost (imagePost ''2''), DiscoveryComplete])
   \<and> wellFormed album
   \<and> getTargets album [''photos''] = Some [targetA]
   \<and> \<not> existsSync album ([''photos'', ''2019'', ''a.jpg''], False)
   \<and> plainName ''a.jpg''
   \<and> existsSync (photoRun False album (processTarget targetA (Some (''a.jpg'', None))))
        ([''photos'', ''2019'', ''a.jpg''], False)
   \<and> getTargets (photoRun False album (processTarget targetA (Some (''a.jpg'', None))))
        [''photos''] = Some []"
proof -
  have f: "\<forall>p \<in> set [imagePost ''1'', imagePost ''2''].
      \<forall>t \<in> set (postTasks p). filename t \<in> outputDir (run (init {}) firstRunOfTwo)"
    by (simp add: firstRunOfTwo_files postTasks_imagePost imageTask_def)
  have d: "downloaded (run (init {}) firstRunOfTwo) = 2"
    by (simp add: harvest_defs firstRunOfTwo_def)
  have api: "filename (imageTask ''1'') \<in> outputDir (run (init {}) firstRunOfTwo)
   \<and> filename (imageTask ''2'') \<in> outputDir (run (init {}) firstRunOfTwo)
   \<and> distinct (map postId [imagePost ''1'', imagePost ''2''])
   \<and> skipped (secondRun (run (init {}) firstRunOfTwo)
        [AppReady True, HeadersCaptured, ProcessPost (imagePost ''1''),
         ProcessPost (imagePost ''2''), DiscoveryComplete]) = 2
   \<and> downloaded (secondRun (run (init {}) firstRunOfTwo)
        [AppReady True, HeadersCaptured, ProcessPost (imagePost ''1''),
         ProcessPost (imagePost ''2''), DiscoveryComplete]) = 0
   \<and> quitCalled (secondRun (run (init {}) firstRunOfTwo)
        [AppReady True, HeadersCaptured, ProcessPost (imagePost ''1''),
         ProcessPost (imagePost ''2''), DiscoveryComplete])"
    using second_run_skips_everything [OF f]
    by (simp add: firstRunOfTwo_files postTasks_imagePost imageTask_def postId_imagePost)
  have st: "\<forall>st \<in> set (processTarget targetA (Some (''a.jpg'', None))).
      list_ex (\<lambda>t. stepOf t st) [targetA]"
    using album_facts by simp
  have sv: "Save (butlast (jsonPath targetA)) ''a.jpg'' None
      \<in> set (processTarget targetA (Some (''a.jpg'', None)))"
    using album_facts by simp
  have pj: "pathJoin (butlast (jsonPath targetA)) (title targetA)
      = pathJoin (butlast (jsonPath targetA)) ''a.jpg''"
    using album_facts by simp
  have photo: "\<not> existsSync album ([''photos'', ''2019'', ''a.jpg''], False)
   \<and> existsSync (photoRun False album (processTarget targetA (Some (''a.jpg'', None))))
        ([''photos'', ''2019'', ''a.jpg''], False)"
    using second_run_skips_everything [OF f, where fs = album and rootDir = "[''photos'']"
        and tgs = "[targetA]" and tg = targetA
        and steps = "processTarget targetA (Some (''a.jpg'', None))" and name = "''a.jpg''"
        and c = None and ?win32.0 = False]
      album_facts st sv pj
    by simp
  show ?thesis
    using api d photo album_facts album_second_run by blast
qed

section \<open>The scraping harvester: retries of a tracked download\<close>

lemma set_update_cases:
  "(k', v') \<in> set (AList.update k v al) \<Longrightarrow> (k', v') \<in> set al \<or> (k', v') = (k, v)"
  by (induction al) (auto split: if_splits)

lemma set_delete_subset: "set (AList.delete k al) \<subseteq> set al"
  by (auto simp: AList.delete_eq)

lemma afterDone_frame:
  "objects (afterDone s) = objects s" "activeDownloadsMap (afterDone s) = activeDownloadsMap s"
  "liveItems (afterDone s) = liveItems s" "downloadUrlCalls (afterDone s) = downloadUrlCalls s"
  by (simp_all add: afterDone_def Let_def)

lemma resolveFilename_retriesLeft:
  "retriesLeft (snd (resolveFilename m info)) = retriesLeft info"
  by (simp add: resolveFilename_def Let_def)

lemma wellTracked_init: "wellTracked scraperInit"
  by (simp add: wellTracked_def scraperInit_def)

lemma wellTracked_onDownloadUrl: "wellTracked s \<Longrightarrow> wellTracked (onDownloadUrl u fname s)"
  unfolding wellTracked_def onDownloadUrl_def Let_def
  by (auto dest!: set_update_cases simp: less_Suc_eq)

lemma wellTracked_willDownload: "wellTracked s \<Longrightarrow> wellTracked (willDownload u m s)"
  unfolding wellTracked_def willDownload_def Let_def
  by (auto split: option.splits prod.splits dest!: map_of_SomeD)

lemma wellTracked_itemDone: "wellTracked s \<Longrightarrow> wellTracked (itemDone u a fname st s)"
proof -
  assume w: "wellTracked s"
  have l: "set (remove1 (u, a, fname) (liveItems s)) \<subseteq> set (liveItems s)"
    by (rule set_remove1_subset)
  have d: "set (AList.delete u (activeDownloadsMap s)) \<subseteq> set (activeDownloadsMap s)"
    by (rule set_delete_subset)
  show ?thesis
    using w l d unfolding wellTracked_def itemDone_def Let_def
    by (auto simp: afterDone_frame)
qed

lemma wellTracked_step: "wellTracked s \<Longrightarrow> wellTracked (scraperStep s e)"
proof (cases e)
  case (DownloadUrlMessage u fname)
  assume "wellTracked s"
  then show ?thesis
    using DownloadUrlMessage by (simp add: wellTracked_onDownloadUrl)
next
  case ScrapingCompleteMessage
  assume "wellTracked s"
  then show ?thesis
    using ScrapingCompleteMessage by (simp add: wellTracked_def handleScrapingComplete_def Let_def)
next
  case (WillDownload u m)
  assume "wellTracked s"
  then show ?thesis
    using WillDownload by (simp add: wellTracked_willDownload)
next
  case (ItemDone u a fname st)
  assume "wellTracked s"
  then show ?thesis
    using ItemDone by (simp add: wellTracked_itemDone)
next
  case WindowDestroyed
  assume "wellTracked s"
  then show ?thesis
    using WindowDestroyed by (simp add: wellTracked_def)
qed

lemma objects_length_step: "length (objects s) \<le> length (objects (scraperStep s e))"
  by (cases e)
    (auto simp: onDownloadUrl_def handleScrapingComplete_def willDownload_def itemDone_def
      afterDone_frame Let_def split: option.splits prod.splits)

lemma retriesLeft_step:
  assumes "wellTracked s" "b < length (objects s)"
  shows "retriesLeft (objects (scraperStep s e) ! b)
    = retriesLeft (objects s ! b) - (if retryOf s e = Some b then 1 else 0)"
proof (cases e)
  case (DownloadUrlMessage u fname)
  then show ?thesis
    using assms(2) by (simp add: onDownloadUrl_def retryOf_def Let_def nth_append)
next
  case ScrapingCompleteMessage
  then show ?thesis
    by (simp add: handleScrapingComplete_def retryOf_def Let_def)
next
  case (WillDownload u m)
  show ?thesis
  proof (cases "map_of (activeDownloadsMap s) u")
    case None
    then show ?thesis
      using WillDownload by (simp add: willDownload_def retryOf_def)
  next
    case (Some a)
    obtain fname info' where r: "resolveFilename m ((objects s ! a)\<lparr>item := True, status := StatusDownloading\<rparr>) = (fname, info')"
      by (cases "resolveFilename m ((objects s ! a)\<lparr>item := True, status := StatusDownloading\<rparr>)") auto
    have "retriesLeft info' = retriesLeft (objects s ! a)"
      using resolveFilename_retriesLeft [of m "(objects s ! a)\<lparr>item := True, status := StatusDownloading\<rparr>"] r
      by simp
    then show ?thesis
      using WillDownload Some r assms(2)
      by (cases "a = b") (simp_all add: willDownload_def retryOf_def Let_def nth_list_update)
  qed
next
  case (ItemDone u a fname st)
  show ?thesis
  proof (cases "(u, a, fname) \<in> set (liveItems s)")
    case False
    then show ?thesis
      using ItemDone by (simp add: retryOf_def)
  next
    case True
    then have "a < length (objects s)"
      using assms(1) by (auto simp: wellTracked_def)
    then show ?thesis
      using ItemDone True assms(2)
      by (auto simp: itemDone_def retryOf_def Let_def afterDone_frame nth_list_update)
  qed
next
  case WindowDestroyed
  then show ?thesis
    by (simp add: retryOf_def)
qed

lemma new_objects_step:
  assumes "length (objects s) \<le> b" "b < length (objects (scraperStep s e))"
  shows "retriesLeft (objects (scraperStep s e) ! b) = MAX_DOWNLOAD_RETRIES"
  using assms
  by (cases e)
    (auto simp: onDownloadUrl_def handleScrapingComplete_def willDownload_def itemDone_def
      afterDone_frame Let_def nth_append split: option.splits prod.splits if_splits)

lemma retryOf_live: "wellTracked s \<Longrightarrow> retryOf s e = Some a \<Longrightarrow> a < length (objects s) \<and> retriesLeft (objects s ! a) > 0"
  by (cases e) (auto simp: retryOf_def wellTracked_def split: if_splits)

lemma retries_le:
  "wellTracked s \<Longrightarrow>
     retries a s evs \<le> (if a < length (objects s) then retriesLeft (objects s ! a) else MAX_DOWNLOAD_RETRIES)"
proof (induction evs arbitrary: s)
  case Nil
  then show ?case by simp
next
  case (Cons e evs)
  let ?s' = "scraperStep s e"
  have w': "wellTracked ?s'"
    using Cons.prems by (rule wellTracked_step)
  have ih: "retries a ?s' evs
      \<le> (if a < length (objects ?s') then retriesLeft (objects ?s' ! a) else MAX_DOWNLOAD_RETRIES)"
    using w' by (rule Cons.IH)
  show ?case
  proof (cases "a < length (objects s)")
    case True
    then have a': "a < length (objects ?s')"
      using objects_length_step [of s e] by simp
    have r: "retriesLeft (objects ?s' ! a)
        = retriesLeft (objects s ! a) - (if retryOf s e = Some a then 1 else 0)"
      using Cons.prems True by (rule retriesLeft_step)
    have p: "retryOf s e = Some a \<Longrightarrow> retriesLeft (objects s ! a) > 0"
      using retryOf_live [OF Cons.prems] by simp
    show ?thesis
      using ih a' r p True by (cases "retryOf s e = Some a") simp_all
  next
    case False
    then have n: "retryOf s e \<noteq> Some a"
      using retryOf_live [OF Cons.prems, of e a] by auto
    have "retries a ?s' evs \<le> MAX_DOWNLOAD_RETRIES"
    proof (cases "a < length (objects ?s')")
      case True
      then have "retriesLeft (objects ?s' ! a) = MAX_DOWNLOAD_RETRIES"
        using False new_objects_step [of s a e] by simp
      then show ?thesis
        using ih True by simp
    next
      case False
      then show ?thesis
        using ih by simp
    qed
    then show ?thesis
      using n False by simp
  qed
qed

lemmas scraper_defs =
  scraperRun_def scraperInit_def onDownloadUrl_def willDownload_def resolveFilename_def
  itemDone_def afterDone_def handleScrapingComplete_def endsWith_def truthy_def Let_def
  MAX_CONCURRENT_DOWNLOADS_def DOWNLOAD_RESUME_THRESHOLD_def MAX_DOWNLOAD_RETRIES_def

lemma clipRequests_eq:
  "clipRequests =
     [DownloadUrlMessage clipUrl (''grok-video-'' @ clipPost @ ''.mp4''),
      DownloadUrlMessage clipUrl (''grok-video-hd-'' @ clipPost @ ''.mp4'')]"
  by (simp add: clipRequests_def dealWithItem_def downloadsToRequest_def potentialDownloads_def
      truthy_def clipUrl_def clipPost_def isWordChar_def)

lemma scraper_retry_step:
  assumes "(u, a, fname) \<in> set (liveItems s)" "a < length (objects s)"
    "st \<noteq> Completed" "st \<noteq> Cancelled"
  shows "retriesLeft (objects s ! a) > 0 \<Longrightarrow>
       downloadUrlCalls (scraperStep s (ItemDone u a fname st)) = downloadUrlCalls s @ [u]
       \<and> retriesLeft (objects (scraperStep s (ItemDone u a fname st)) ! a) + 1 = retriesLeft (objects s ! a)
       \<and> activeDownloadsMap (scraperStep s (ItemDone u a fname st)) = activeDownloadsMap s"
    and "retriesLeft (objects s ! a) = 0 \<Longrightarrow>
       downloadUrlCalls (scraperStep s (ItemDone u a fname st)) = downloadUrlCalls s
       \<and> activeDownloadsMap (scraperStep s (ItemDone u a fname st))
           = AList.delete u (activeDownloadsMap s)"
  using assms by (simp_all add: itemDone_def Let_def afterDone_frame)

lemma failsOnce_state: "(''a'', 0, ''a.mp4'') \<in> set (liveItems (scraperRun scraperInit failsOnce))
   \<and> 0 < length (objects (scraperRun scraperInit failsOnce))
   \<and> retriesLeft (objects (scraperRun scraperInit failsOnce) ! 0) = 3
   \<and> downloadUrlCalls (scraperRun scraperInit failsOnce) = [''a'']"
  by (simp add: failsOnce_def scraper_defs)

lemma failsAgain_state: "(''a'', 0, ''a.mp4'') \<in> set (liveItems (scraperRun scraperInit failsAgain))
   \<and> 0 < length (objects (scraperRun scraperInit failsAgain))
   \<and> retriesLeft (objects (scraperRun scraperInit failsAgain) ! 0) = 0
   \<and> activeDownloadsMap (scraperRun scraperInit failsAgain) = [(''a'', 0)]
   \<and> downloadUrlCalls (scraperRun scraperInit failsAgain) = [''a'', ''a'', ''a'', ''a'']"
  by (simp add: failsAgain_def scraper_defs)

lemma failsAgain_counts:
  "retries 0 scraperInit (failsAgain @ [ItemDone ''a'' 0 ''a.mp4'' Interrupted]) = 3"
  by (simp add: failsAgain_def scraper_defs retryOf_def)

section \<open>File names\<close>

lemma takeWhile_before: "c \<notin> set xs \<Longrightarrow> takeWhile (\<lambda>x. x \<noteq> c) (xs @ c # r) = xs"
  by (induction xs) auto

lemma last_dot_unique:
  assumes "xs @ c # e = ys @ c # e'" "c \<notin> set e" "c \<notin> set e'"
  shows "xs = ys"
proof -
  have "rev e @ c # rev xs = rev e' @ c # rev ys"
    using arg_cong [OF assms(1), of rev] by simp
  then have "takeWhile (\<lambda>x. x \<noteq> c) (rev e @ c # rev xs) = takeWhile (\<lambda>x. x \<noteq> c) (rev e' @ c # rev ys)"
    by simp
  then have "rev e = rev e'"
    using assms(2,3) by (simp add: takeWhile_before)
  then show ?thesis
    using assms(1) by simp
qed

lemma extension_no_dot: "e \<in> set extensions \<Longrightarrow> CHR ''.'' \<notin> set e"
  by (auto simp: extensions_def)

lemma namesOf_inj:
  assumes "fn \<in> set (namesOf i)" "fn \<in> set (namesOf j)"
  shows "i = j"
proof -
  from assms(1) obtain e where e: "e \<in> set extensions"
    and f1: "fn = ''grok-image-'' @ i @ ''.'' @ e \<or> fn = ''grok-video-'' @ i @ ''.'' @ e"
    by (auto simp: namesOf_def)
  from assms(2) obtain e' where e': "e' \<in> set extensions"
    and f2: "fn = ''grok-image-'' @ j @ ''.'' @ e' \<or> fn = ''grok-video-'' @ j @ ''.'' @ e'"
    by (auto simp: namesOf_def)
  from f1 f2 have "i @ CHR ''.'' # e = j @ CHR ''.'' # e'"
    by auto
  then show ?thesis
    using extension_no_dot [OF e] extension_no_dot [OF e'] by (rule last_dot_unique)
qed

lemma getExtension_extensions: "getExtension m = Some e \<Longrightarrow> e \<in> set extensions"
  by (auto simp: getExtension_def extensions_def Let_def split: option.splits if_splits)

lemma orDefault_extensions:
  "d \<in> set extensions \<Longrightarrow> orDefault (getExtension m) d \<in> set extensions"
  by (cases "getExtension m") (auto simp: orDefault_def getExtension_extensions)

lemma imageTasks_names: "t \<in> set (imageTasks p) \<Longrightarrow> filename t \<in> set (namesOf (postId p))"
  using orDefault_extensions [of "''jpg''" "postMimeType p"]
  by (auto simp: imageTasks_def namesOf_def extensions_def split: if_splits)

lemma videoTasks_eq:
  "videoTasks p = (if childPosts p = [] then []
     else videoTask p 1 0 (hd (sort_key (\<lambda>c. - childCreateTime c) (childPosts p))))"
  by (simp add: videoTasks_def childrenToDownload_def DOWNLOAD_ALL_VARIANTS_def Let_def)

lemma videoTask_names: "t \<in> set (videoTask p n k c) \<Longrightarrow> filename t \<in> set (namesOf (postId p))"
  using orDefault_extensions [of "''mp4''" "childMimeType c"]
  by (auto simp: videoTask_def namesOf_def DOWNLOAD_ALL_VARIANTS_def extensions_def split: if_splits)

lemma postTasks_names: "t \<in> set (postTasks p) \<Longrightarrow> filename t \<in> set (namesOf (postId p))"
  by (auto simp: postTasks_def videoTasks_eq imageTasks_names videoTask_names split: if_splits)

lemma postTasks_distinct: "distinct (map filename (postTasks p))"
  by (auto simp: postTasks_def videoTasks_eq imageTasks_def videoTask_def split: if_splits)

section \<open>The attempt budget\<close>

lemma flying_append: "flying fn (xs @ ys) = flying fn xs + flying fn ys"
  by (simp add: flying_def)

lemma flying_remove1:
  "(t, rc) \<in> set fl \<Longrightarrow>
     flying fn fl = (if filename t = fn then DOWNLOAD_RETRIES - rc else 0) + flying fn (remove1 (t, rc) fl)"
  unfolding flying_def
  by (subst sum_list_map_remove1 [of "(t, rc)"]) simp_all

lemma waiting_append: "waiting fn (xs @ ys) = waiting fn xs + waiting fn ys"
  by (simp add: waiting_def)

lemma waiting_remove1:
  "(due, t, rc) \<in> set tm \<Longrightarrow>
     waiting fn tm = (if filename t = fn then DOWNLOAD_RETRIES + 1 - rc else 0)
       + waiting fn (remove1 (due, t, rc) tm)"
  unfolding waiting_def
  by (subst sum_list_map_remove1 [of "(due, t, rc)"]) simp_all

lemma budget_dispatchLoop:
  "downloadQueue s = q \<Longrightarrow> budget fn (dispatchLoop q s) = budget fn s"
proof (induction q arbitrary: s)
  case Nil
  then show ?case by simp
next
  case (Cons t rest)
  let ?s1 = "downloadFile t 0 (s\<lparr> downloadQueue := rest \<rparr>)"
  have "budget fn (dispatchLoop rest ?s1) = budget fn ?s1"
    by (rule Cons.IH) (simp add: downloadFile_def)
  moreover have "budget fn ?s1 = budget fn s"
    using Cons.prems
    by (simp add: budget_def attempts_def queued_def flying_def downloadFile_def)
  ultimately show ?case
    by simp
qed

lemma budget_checkQueue: "budget fn (checkQueue s) = budget fn s"
proof -
  have "budget fn (s\<lparr> console := console s @ [AllCompleted a b c], quitCalled := True \<rparr>) = budget fn s"
    for a b c
    by (simp add: budget_def attempts_def)
  then show ?thesis
    by (simp add: checkQueue_def budget_dispatchLoop)
qed

lemma budget_addToQueue:
  "budget fn (addToQueue t s) \<le> budget fn s + (if filename t = fn then DOWNLOAD_RETRIES + 1 else 0)"
  by (simp add: addToQueue_def budget_def attempts_def queued_def)

lemma budget_addToQueue_mono: "budget fn s \<le> budget fn (addToQueue t s)"
  by (simp add: addToQueue_def budget_def attempts_def queued_def)

lemma budget_fold_addToQueue:
  "budget fn (fold addToQueue ts s)
     \<le> budget fn s + (DOWNLOAD_RETRIES + 1) * count_list (map filename ts) fn"
proof (induction ts arbitrary: s)
  case Nil
  then show ?case by simp
next
  case (Cons t ts)
  have "budget fn (fold addToQueue ts (addToQueue t s))
      \<le> budget fn (addToQueue t s) + (DOWNLOAD_RETRIES + 1) * count_list (map filename ts) fn"
    by (rule Cons.IH)
  then show ?case
    using budget_addToQueue [of fn t s] by (auto simp: algebra_simps)
qed

lemma fold_addToQueue_frame:
  "timers (fold addToQueue ts s) = timers s"
  "processedIds (fold addToQueue ts s) = processedIds s"
  by (induction ts arbitrary: s; simp add: addToQueue_def)+

lemma budget_onRequestFailed:
  assumes "(t, rc) \<in> set (inflight s)"
  shows "budget fn (onRequestFailed t rc s) \<le> budget fn s"
proof -
  let ?s0 = "s\<lparr> inflight := remove1 (t, rc) (inflight s), tempDir := tempDir s - {filename t} \<rparr>"
  have f: "flying fn (inflight s)
      = (if filename t = fn then DOWNLOAD_RETRIES - rc else 0) + flying fn (remove1 (t, rc) (inflight s))"
    using assms by (rule flying_remove1)
  show ?thesis
  proof (cases "rc < DOWNLOAD_RETRIES")
    case True
    then show ?thesis
      using f
      by (simp add: onRequestFailed_def handleDownloadError_def Let_def budget_def attempts_def
          waiting_append) (simp add: waiting_def)
  next
    case False
    then show ?thesis
      using f
      by (simp add: onRequestFailed_def handleDownloadError_def Let_def budget_checkQueue)
         (simp add: budget_def attempts_def)
  qed
qed

lemma budget_finalize: "budget fn (finalize t oc s) = budget fn s"
  by (simp add: finalize_def rename_def Let_def budget_def attempts_def)

lemma budget_onFileFinish:
  assumes "(t, rc) \<in> set (inflight s)"
  shows "budget fn (onFileFinish t rc oc s) \<le> budget fn s"
proof -
  let ?s0 = "s\<lparr> inflight := remove1 (t, rc) (inflight s) \<rparr>"
  have "budget fn ?s0 \<le> budget fn s"
    using flying_remove1 [OF assms, of fn] by (simp add: budget_def attempts_def)
  moreover have "budget fn (onFileFinish t rc oc s) = budget fn (finalize t oc ?s0)"
    by (simp add: onFileFinish_def Let_def budget_checkQueue) (simp add: budget_def attempts_def)
  ultimately show ?thesis
    by (simp add: budget_finalize)
qed

lemma budget_retryTimer:
  assumes "(due, t, rc) \<in> set (timers s)" "rc \<le> DOWNLOAD_RETRIES"
  shows "budget fn (downloadFile t rc (s\<lparr> timers := remove1 (due, t, rc) (timers s) \<rparr>)) = budget fn s"
  using waiting_remove1 [OF assms(1), of fn] assms(2)
  by (simp add: budget_def attempts_def downloadFile_def flying_append) (simp add: flying_def Suc_diff_le)

section \<open>Every reachable state is accounted\<close>

lemma accountedI:
  assumes "list_all (\<lambda>(due, t, rc). rc \<le> DOWNLOAD_RETRIES) (timers s')"
    and "\<And>fn. budget fn s' \<le> budget fn s"
    and "processedIds s \<subseteq> processedIds s'"
    and "accounted s"
  shows "accounted s'"
  unfolding accounted_def
proof (intro conjI allI impI)
  show "list_all (\<lambda>(due, t, rc). rc \<le> DOWNLOAD_RETRIES) (timers s')"
    by (rule assms(1))
  fix fn
  show "budget fn s' \<le> DOWNLOAD_RETRIES + 1"
    using assms(2) [of fn] assms(4) by (auto simp: accounted_def intro: order_trans)
  assume "0 < budget fn s'"
  then have "0 < budget fn s"
    using assms(2) [of fn] by simp
  then obtain i where "i \<in> processedIds s" "fn \<in> set (namesOf i)"
    using assms(4) by (auto simp: accounted_def)
  then show "\<exists>i \<in> processedIds s'. fn \<in> set (namesOf i)"
    using assms(3) by auto
qed

lemma accounted_timers: "accounted s \<Longrightarrow> list_all (\<lambda>(due, t, rc). rc \<le> DOWNLOAD_RETRIES) (timers s)"
  by (simp add: accounted_def)

lemma handleDownloadError_frame:
  "processedIds (handleDownloadError t rc s) = processedIds s"
  by (simp add: handleDownloadError_def Let_def checkQueue_frame)

lemma handleDownloadError_timers:
  "list_all (\<lambda>(due, t, rc). rc \<le> DOWNLOAD_RETRIES) (timers s) \<Longrightarrow>
     list_all (\<lambda>(due, t, rc). rc \<le> DOWNLOAD_RETRIES) (timers (handleDownloadError t rc s))"
  by (simp add: handleDownloadError_def Let_def checkQueue_frame)

lemma accounted_onRequestFailed:
  assumes "accounted s" "(t, rc) \<in> set (inflight s)"
  shows "accounted (onRequestFailed t rc s)"
proof (rule accountedI [OF _ _ _ assms(1)])
  show "list_all (\<lambda>(due, t, rc). rc \<le> DOWNLOAD_RETRIES) (timers (onRequestFailed t rc s))"
    using accounted_timers [OF assms(1)]
    by (simp add: onRequestFailed_def handleDownloadError_timers)
  show "budget fn (onRequestFailed t rc s) \<le> budget fn s" for fn
    using assms(2) by (rule budget_onRequestFailed)
  show "processedIds s \<subseteq> processedIds (onRequestFailed t rc s)"
    by (simp add: onRequestFailed_def handleDownloadError_frame)
qed

lemma accounted_onFileFinish:
  assumes "accounted s" "(t, rc) \<in> set (inflight s)"
  shows "accounted (onFileFinish t rc oc s)"
proof (rule accountedI [OF _ _ _ assms(1)])
  show "list_all (\<lambda>(due, t, rc). rc \<le> DOWNLOAD_RETRIES) (timers (onFileFinish t rc oc s))"
    using accounted_timers [OF assms(1)]
    by (simp add: onFileFinish_def Let_def checkQueue_frame finalize_frame)
  show "budget fn (onFileFinish t rc oc s) \<le> budget fn s" for fn
    using assms(2) by (rule budget_onFileFinish)
  show "processedIds s \<subseteq> processedIds (onFileFinish t rc oc s)"
    by (simp add: onFileFinish_def Let_def checkQueue_frame finalize_def rename_def)
qed

lemma accounted_retryTimer:
  assumes "accounted s" "timerDue s t rc = Some due"
  shows "accounted (downloadFile t rc (s\<lparr> timers := remove1 (due, t, rc) (timers s) \<rparr>))"
proof (rule accountedI [OF _ _ _ assms(1)])
  have m: "(due, t, rc) \<in> set (timers s)"
    using timerDue_Some [OF assms(2)] by simp
  have la: "list_all (\<lambda>(due, t, rc). rc \<le> DOWNLOAD_RETRIES) (timers s)"
    using assms(1) by (rule accounted_timers)
  then have rc: "rc \<le> DOWNLOAD_RETRIES"
    using m by (auto simp: list_all_iff)
  show "list_all (\<lambda>(due, t, rc). rc \<le> DOWNLOAD_RETRIES)
      (timers (downloadFile t rc (s\<lparr> timers := remove1 (due, t, rc) (timers s) \<rparr>)))"
  proof -
    have "set (remove1 (due, t, rc) (timers s)) \<subseteq> set (timers s)"
      by (rule set_remove1_subset)
    then have "list_all (\<lambda>(due, t, rc). rc \<le> DOWNLOAD_RETRIES) (remove1 (due, t, rc) (timers s))"
      using la unfolding list_all_iff by blast
    then show ?thesis
      by (simp add: downloadFile_def)
  qed
  show "budget fn (downloadFile t rc (s\<lparr> timers := remove1 (due, t, rc) (timers s) \<rparr>)) \<le> budget fn s"
    for fn
    using budget_retryTimer [OF m rc, of fn] by simp
  show "processedIds s
      \<subseteq> processedIds (downloadFile t rc (s\<lparr> timers := remove1 (due, t, rc) (timers s) \<rparr>))"
    by (simp add: downloadFile_def)
qed

lemma accounted_checkQueue:
  assumes "accounted s"
  shows "accounted (checkQueue s)"
proof (rule accountedI [OF _ _ _ assms])
  show "list_all (\<lambda>(due, t, rc). rc \<le> DOWNLOAD_RETRIES) (timers (checkQueue s))"
    using accounted_timers [OF assms] by (simp add: checkQueue_frame)
  show "budget fn (checkQueue s) \<le> budget fn s" for fn
    by (simp add: budget_checkQueue)
  show "processedIds s \<subseteq> processedIds (checkQueue s)"
    by (simp add: checkQueue_frame)
qed

lemma accounted_flags:
  assumes "accounted s"
    and "timers s' = timers s" "downloadQueue s' = downloadQueue s" "inflight s' = inflight s"
    and "console s' = console s" "processedIds s' = processedIds s"
  shows "accounted s'"
  using assms by (simp add: accounted_def budget_def attempts_def)

lemma distinct_count_list_le: "distinct xs \<Longrightarrow> count_list xs x \<le> 1"
  by (induction xs) (auto simp: count_list_0_iff)

lemma accounted_processPost:
  assumes "accounted s"
  shows "accounted (processPost p s)"
proof (cases "postId p \<in> processedIds s")
  case True
  then show ?thesis using assms by (simp add: processPost_def)
next
  case False
  let ?s0 = "s\<lparr> processedIds := insert (postId p) (processedIds s), found := Suc (found s) \<rparr>"
  let ?s1 = "fold addToQueue (postTasks p) ?s0"
  have b0: "budget fn ?s0 = budget fn s" for fn
    by (simp add: budget_def attempts_def)
  have fresh: "budget fn s = 0" if "fn \<in> set (map filename (postTasks p))" for fn
  proof (rule ccontr)
    assume "budget fn s \<noteq> 0"
    then obtain i where i: "i \<in> processedIds s" "fn \<in> set (namesOf i)"
      using assms by (auto simp: accounted_def)
    from that have "fn \<in> set (namesOf (postId p))"
      using postTasks_names by auto
    with i have "i = postId p"
      using namesOf_inj by blast
    with i False show False by simp
  qed
  have once: "count_list (map filename (postTasks p)) fn \<le> 1" for fn
    using postTasks_distinct [of p] by (rule distinct_count_list_le)
  have "accounted ?s1"
    unfolding accounted_def
  proof (intro conjI allI impI)
    show "list_all (\<lambda>(due, t, rc). rc \<le> DOWNLOAD_RETRIES) (timers ?s1)"
      using accounted_timers [OF assms] by (simp add: fold_addToQueue_frame)
    fix fn
    have le: "budget fn ?s1 \<le> budget fn s + (DOWNLOAD_RETRIES + 1) * count_list (map filename (postTasks p)) fn"
      using budget_fold_addToQueue [of fn "postTasks p" ?s0] by (simp add: b0)
    show "budget fn ?s1 \<le> DOWNLOAD_RETRIES + 1"
    proof (cases "fn \<in> set (map filename (postTasks p))")
      case True
      have "(DOWNLOAD_RETRIES + 1) * count_list (map filename (postTasks p)) fn
          \<le> (DOWNLOAD_RETRIES + 1) * 1"
        using once [of fn] by (rule mult_le_mono2)
      then show ?thesis
        using le fresh [OF True] by simp
    next
      case False
      then have "count_list (map filename (postTasks p)) fn = 0"
        by (simp add: count_list_0_iff)
      then show ?thesis
        using le assms by (auto simp: accounted_def intro: order_trans)
    qed
    assume pos: "0 < budget fn ?s1"
    show "\<exists>i \<in> processedIds ?s1. fn \<in> set (namesOf i)"
    proof (cases "fn \<in> set (map filename (postTasks p))")
      case True
      then have "fn \<in> set (namesOf (postId p))"
        using postTasks_names by auto
      then show ?thesis
        by (auto simp: fold_addToQueue_frame)
    next
      case False
      then have "count_list (map filename (postTasks p)) fn = 0"
        by (simp add: count_list_0_iff)
      then have "0 < budget fn s"
        using le pos by simp
      then show ?thesis
        using assms by (auto simp: accounted_def fold_addToQueue_frame)
    qed
  qed
  then show ?thesis
    using False by (simp add: processPost_def accounted_checkQueue)
qed

lemma accounted_step: "accounted s \<Longrightarrow> accounted (step s e)"
proof (cases e)
  case (ProcessPost p)
  assume "accounted s"
  then show ?thesis using ProcessPost by (simp add: accounted_processPost)
next
  case DiscoveryComplete
  assume a: "accounted s"
  have "accounted (s\<lparr> isScraping := False \<rparr>)"
    by (rule accounted_flags [OF a]) simp_all
  then show ?thesis using DiscoveryComplete a by (simp add: accounted_checkQueue)
next
  case (Response t rc code)
  assume "accounted s"
  then show ?thesis using Response by (simp add: accounted_onRequestFailed)
next
  case (RequestError t rc)
  assume "accounted s"
  then show ?thesis using RequestError by (simp add: accounted_onRequestFailed)
next
  case (FileFinish t rc oc)
  assume "accounted s"
  then show ?thesis using FileFinish by (simp add: accounted_onFileFinish)
next
  case (RetryTimer t rc)
  assume "accounted s"
  then show ?thesis using RetryTimer by (auto simp: accounted_retryTimer split: option.splits)
next
  case (AppReady b)
  assume a: "accounted s"
  show ?thesis unfolding AppReady by (rule accounted_flags [OF a]) simp_all
next
  case HeadersCaptured
  assume a: "accounted s"
  show ?thesis unfolding HeadersCaptured
    by (rule accounted_flags [OF a]) (simp_all add: startApiHarvest_def Let_def)
next
  case PressF7
  assume a: "accounted s"
  show ?thesis unfolding PressF7
    by (rule accounted_flags [OF a]) (simp_all add: startApiHarvest_def Let_def)
next
  case (Tick ms)
  assume a: "accounted s"
  show ?thesis unfolding Tick by (rule accounted_flags [OF a]) simp_all
qed

lemma accounted_run: "accounted s \<Longrightarrow> accounted (run s evs)"
  by (induction evs arbitrary: s) (simp_all add: run_Nil run_Cons accounted_step)

lemma accounted_init: "accounted (init dir)"
  by (simp add: accounted_def init_def budget_def attempts_def queued_def flying_def waiting_def)

lemma attempts_le_budget: "attempts fn s \<le> budget fn s"
  by (simp add: budget_def)

lemma dispatchLoop_tempDir:
  "tempDir (dispatchLoop q s) \<subseteq> tempDir s \<union> filename ` set q"
proof (induction q arbitrary: s)
  case Nil
  then show ?case by simp
next
  case (Cons t rest)
  have "tempDir (dispatchLoop rest (downloadFile t 0 (s\<lparr> downloadQueue := rest \<rparr>)))
      \<subseteq> tempDir (downloadFile t 0 (s\<lparr> downloadQueue := rest \<rparr>)) \<union> filename ` set rest"
    by (rule Cons.IH)
  then show ?case
    by (auto simp: downloadFile_def)
qed

lemma checkQueue_tempDir:
  "tempDir (checkQueue s) \<subseteq> tempDir s \<union> filename ` set (downloadQueue s)"
  using dispatchLoop_tempDir [of "downloadQueue s" s] by (simp add: checkQueue_def)

lemma final_failure:
  assumes "(t, rc) \<in> set (inflight s)" "\<not> rc < DOWNLOAD_RETRIES"
  shows "errors (onRequestFailed t rc s) = errors s + 1"
    and "timers (onRequestFailed t rc s) = timers s"
    and "\<forall>q \<in> set (downloadQueue s). filename q \<noteq> filename t
           \<Longrightarrow> filename t \<notin> tempDir (onRequestFailed t rc s)"
proof -
  let ?s1 = "s\<lparr> inflight := remove1 (t, rc) (inflight s),
      console := console s @ [Fail (filename t)], tempDir := tempDir s - {filename t},
      errors := Suc (errors s), activeDownloads := activeDownloads s - 1 \<rparr>"
  have e: "onRequestFailed t rc s = checkQueue ?s1"
    using assms(2) by (simp add: onRequestFailed_def handleDownloadError_def Let_def)
  show "errors (onRequestFailed t rc s) = errors s + 1"
    "timers (onRequestFailed t rc s) = timers s"
    by (simp_all add: e checkQueue_frame)
  assume nq: "\<forall>q \<in> set (downloadQueue s). filename q \<noteq> filename t"
  have sub: "tempDir (checkQueue ?s1) \<subseteq> (tempDir s - {filename t}) \<union> filename ` set (downloadQueue s)"
    using checkQueue_tempDir [of ?s1] by simp
  have "filename t \<notin> filename ` set (downloadQueue s)"
    using nq by (metis imageE)
  then have "filename t \<notin> (tempDir s - {filename t}) \<union> filename ` set (downloadQueue s)"
    by simp
  then show "filename t \<notin> tempDir (onRequestFailed t rc s)"
    using sub unfolding e by blast
qed

section \<open>Attempts and retries\<close>

text \<open>
  Claim C5 bounds the download attempts of every task by the retry limit plus one and
  says that the failure of the last attempt is counted as an error.  In the scraping
  harvester the page asks for the video of the post below under two file names at one
  address, which is tracked once; both downloads fail and are retried on the same tracked
  entry, so that the address is requested five times, one more than the limit of three
  retries allows for.  An item that was cancelled, as the stall timer does, is passed over
  by the \<^verbatim>\<open>done\<close> handler: it is not retried and stays tracked with its retries unused.
\<close>

theorem scraper_starts_five_times:
  "clipRequests =
     [DownloadUrlMessage clipUrl (''grok-video-'' @ clipPost @ ''.mp4''),
      DownloadUrlMessage clipUrl (''grok-video-hd-'' @ clipPost @ ''.mp4'')]
   \<and> downloadUrlCalls (scraperRun scraperInit sameUrlTwice)
     = [clipUrl, clipUrl, clipUrl, clipUrl, clipUrl]
   \<and> length (objects (scraperRun scraperInit sameUrlTwice)) = 1
   \<and> MAX_DOWNLOAD_RETRIES + 1 = 4
   \<and> retriesLeft (objects (scraperRun scraperInit cancelledDownload) ! 0) = MAX_DOWNLOAD_RETRIES
   \<and> downloadUrlCalls (scraperRun scraperInit cancelledDownload) = [''a'']
   \<and> activeDownloadsMap (scraperRun scraperInit cancelledDownload) = [(''a'', 0)]"
proof -
  have a: "downloadUrlCalls (scraperRun scraperInit sameUrlTwice)
       = [clipUrl, clipUrl, clipUrl, clipUrl, clipUrl]
     \<and> length (objects (scraperRun scraperInit sameUrlTwice)) = 1"
    unfolding sameUrlTwice_def clipRequests_eq
    by (simp add: scraper_defs clipStarts_def clipFails_def)
  have b: "retriesLeft (objects (scraperRun scraperInit cancelledDownload) ! 0) = MAX_DOWNLOAD_RETRIES
     \<and> downloadUrlCalls (scraperRun scraperInit cancelledDownload) = [''a'']
     \<and> activeDownloadsMap (scraperRun scraperInit cancelledDownload) = [(''a'', 0)]"
    by (simp add: cancelledDownload_def scraper_defs)
  show ?thesis
    using a b clipRequests_eq by (simp add: MAX_DOWNLOAD_RETRIES_def)
qed

text \<open>
  Claim C5, amended.  In every run of the API harvester, for every file name (each
  belongs to at most one task), the number of download attempts is at most
  \<^verbatim>\<open>DOWNLOAD_RETRIES\<close> + 1.  When the attempt with retry count \<^verbatim>\<open>DOWNLOAD_RETRIES\<close>, the
  last one, fails by a request error or by a response whose status is not 200, the error
  count goes up by exactly one, no retry is scheduled, and the temp file of the task is
  gone (no pending task shares its name); a failure of an earlier attempt leaves the error
  count as it is.  The scraping harvester keeps no error count and no temp file.  In every
  run of it the \<^verbatim>\<open>done\<close> handler retries a tracked download at most
  \<^verbatim>\<open>MAX_DOWNLOAD_RETRIES\<close> times.  A retry happens when an item ends neither completed
  nor cancelled and its download has retries left: one retry is used up, the address is
  requested again and the download stays tracked.  When such an item ends with no retry
  left, nothing is requested and the download is tracked no longer.
\<close>

theorem attempts_bounded:
  "attempts fn (run (init dir) evs) \<le> DOWNLOAD_RETRIES + 1
   \<and> ((t, DOWNLOAD_RETRIES) \<in> set (inflight s) \<and> code \<noteq> 200
        \<and> (ev = RequestError t DOWNLOAD_RETRIES \<or> ev = Response t DOWNLOAD_RETRIES code) \<longrightarrow>
      errors (step s ev) = errors s + 1
      \<and> timers (step s ev) = timers s
      \<and> ((\<forall>q \<in> set (downloadQueue s). filename q \<noteq> filename t) \<longrightarrow>
            filename t \<notin> tempDir (step s ev)))
   \<and> ((t, rc) \<in> set (inflight s) \<and> rc < DOWNLOAD_RETRIES \<longrightarrow>
      errors (step s (RequestError t rc)) = errors s)
   \<and> retries a scraperInit sevs \<le> MAX_DOWNLOAD_RETRIES
   \<and> ((u, a, fname) \<in> set (liveItems ss) \<and> a < length (objects ss)
        \<and> st \<noteq> Completed \<and> st \<noteq> Cancelled \<and> retriesLeft (objects ss ! a) > 0 \<longrightarrow>
      downloadUrlCalls (scraperStep ss (ItemDone u a fname st)) = downloadUrlCalls ss @ [u]
      \<and> retriesLeft (objects (scraperStep ss (ItemDone u a fname st)) ! a) + 1
          = retriesLeft (objects ss ! a)
      \<and> activeDownloadsMap (scraperStep ss (ItemDone u a fname st)) = activeDownloadsMap ss)
   \<and> ((u, a, fname) \<in> set (liveItems ss) \<and> a < length (objects ss)
        \<and> st \<noteq> Completed \<and> st \<noteq> Cancelled \<and> retriesLeft (objects ss ! a) = 0 \<longrightarrow>
      downloadUrlCalls (scraperStep ss (ItemDone u a fname st)) = downloadUrlCalls ss
      \<and> activeDownloadsMap (scraperStep ss (ItemDone u a fname st))
          = AList.delete u (activeDownloadsMap ss))"
proof -
  have "accounted (run (init dir) evs)"
    by (intro accounted_run accounted_init)
  then have "budget fn (run (init dir) evs) \<le> DOWNLOAD_RETRIES + 1"
    by (simp add: accounted_def)
  then have bound: "attempts fn (run (init dir) evs) \<le> DOWNLOAD_RETRIES + 1"
    using attempts_le_budget [of fn "run (init dir) evs"] by simp
  have last: "(t, DOWNLOAD_RETRIES) \<in> set (inflight s) \<and> code \<noteq> 200
        \<and> (ev = RequestError t DOWNLOAD_RETRIES \<or> ev = Response t DOWNLOAD_RETRIES code) \<longrightarrow>
      errors (step s ev) = errors s + 1
      \<and> timers (step s ev) = timers s
      \<and> ((\<forall>q \<in> set (downloadQueue s). filename q \<noteq> filename t) \<longrightarrow>
            filename t \<notin> tempDir (step s ev))"
  proof (intro impI conjI)
    assume a: "(t, DOWNLOAD_RETRIES) \<in> set (inflight s) \<and> code \<noteq> 200
        \<and> (ev = RequestError t DOWNLOAD_RETRIES \<or> ev = Response t DOWNLOAD_RETRIES code)"
    then have st: "step s ev = onRequestFailed t DOWNLOAD_RETRIES s"
      by auto
    from a have m: "(t, DOWNLOAD_RETRIES) \<in> set (inflight s)"
      by simp
    show "errors (step s ev) = errors s + 1" "timers (step s ev) = timers s"
      unfolding st using final_failure(1,2) [OF m] by simp_all
    assume "\<forall>q \<in> set (downloadQueue s). filename q \<noteq> filename t"
    then show "filename t \<notin> tempDir (step s ev)"
      unfolding st using final_failure(3) [OF m] by simp
  qed
  have earlier: "(t, rc) \<in> set (inflight s) \<and> rc < DOWNLOAD_RETRIES \<longrightarrow>
      errors (step s (RequestError t rc)) = errors s"
    by (simp add: onRequestFailed_def handleDownloadError_def Let_def)
  have sbound: "retries a scraperInit sevs \<le> MAX_DOWNLOAD_RETRIES"
    using retries_le [OF wellTracked_init, of a sevs] by (simp add: scraperInit_def)
  have retry: "(u, a, fname) \<in> set (liveItems ss) \<and> a < length (objects ss)
        \<and> st \<noteq> Completed \<and> st \<noteq> Cancelled \<and> retriesLeft (objects ss ! a) > 0 \<longrightarrow>
      downloadUrlCalls (scraperStep ss (ItemDone u a fname st)) = downloadUrlCalls ss @ [u]
      \<and> retriesLeft (objects (scraperStep ss (ItemDone u a fname st)) ! a) + 1
          = retriesLeft (objects ss ! a)
      \<and> activeDownloadsMap (scraperStep ss (ItemDone u a fname st)) = activeDownloadsMap ss"
    using scraper_retry_step(1) [of u a fname ss st] by blast
  have giveup: "(u, a, fname) \<in> set (liveItems ss) \<and> a < length (objects ss)
        \<and> st \<noteq> Completed \<and> st \<noteq> Cancelled \<and> retriesLeft (objects ss ! a) = 0 \<longrightarrow>
      downloadUrlCalls (scraperStep ss (ItemDone u a fname st)) = downloadUrlCalls ss
      \<and> activeDownloadsMap (scraperStep ss (ItemDone u a fname st))
          = AList.delete u (activeDownloadsMap ss)"
    using scraper_retry_step(2) [of u a fname ss st] by blast
  show ?thesis
    using bound last earlier sbound retry giveup by blast
qed

lemma failingRun_state:
  "inflight (run (init {}) failingRun) = [(imageTask ''1'', 3)]
   \<and> downloadQueue (run (init {}) failingRun) = []
   \<and> errors (run (init {}) failingRun) = 0
   \<and> attempts ''grok-image-1.png'' (run (init {}) failingRun) = 4"
  by (simp add: harvest_defs failingRun_def attempts_def)

theorem attempts_bounded_witness:
  "attempts ''grok-image-1.png'' (run (init {}) failingRun) = DOWNLOAD_RETRIES + 1
   \<and> (imageTask ''1'', DOWNLOAD_RETRIES) \<in> set (inflight (run (init {}) failingRun))
   \<and> (404::nat) \<noteq> 200
   \<and> errors (step (run (init {}) failingRun) (Response (imageTask ''1'') DOWNLOAD_RETRIES 404)) = 1
   \<and> timers (step (run (init {}) failingRun) (Response (imageTask ''1'') DOWNLOAD_RETRIES 404)) = []
   \<and> ''grok-image-1.png''
        \<notin> tempDir (step (run (init {}) failingRun) (Response (imageTask ''1'') DOWNLOAD_RETRIES 404))
   \<and> (imageTask ''1'', 0) \<in> set (inflight (run (started {}) [ProcessPost (imagePost ''1'')]))
   \<and> errors (step (run (started {}) [ProcessPost (imagePost ''1'')]) (RequestError (imageTask ''1'') 0)) = 0
   \<and> retries 0 scraperInit (failsAgain @ [ItemDone ''a'' 0 ''a.mp4'' Interrupted]) = MAX_DOWNLOAD_RETRIES
   \<and> (''a'', 0, ''a.mp4'') \<in> set (liveItems (scraperRun scraperInit failsOnce))
   \<and> retriesLeft (objects (scraperRun scraperInit failsOnce) ! 0) = 3
   \<and> downloadUrlCalls (scraperStep (scraperRun scraperInit failsOnce)
        (ItemDone ''a'' 0 ''a.mp4'' Interrupted)) = [''a'', ''a'']
   \<and> retriesLeft (objects (scraperStep (scraperRun scraperInit failsOnce)
        (ItemDone ''a'' 0 ''a.mp4'' Interrupted)) ! 0) = 2
   \<and> (''a'', 0, ''a.mp4'') \<in> set (liveItems (scraperRun scraperInit failsAgain))
   \<and> retriesLeft (objects (scraperRun scraperInit failsAgain) ! 0) = 0
   \<and> downloadUrlCalls (scraperStep (scraperRun scraperInit failsAgain)
        (ItemDone ''a'' 0 ''a.mp4'' Interrupted)) = [''a'', ''a'', ''a'', ''a'']
   \<and> activeDownloadsMap (scraperStep (scraperRun scraperInit failsAgain)
        (ItemDone ''a'' 0 ''a.mp4'' Interrupted)) = []"
proof -
  have t: "timers (run (init {}) failingRun) = []"
    by (simp add: harvest_defs failingRun_def)
  have i: "(imageTask ''1'', 0) \<in> set (inflight (run (started {}) [ProcessPost (imagePost ''1'')]))"
    "errors (run (started {}) [ProcessPost (imagePost ''1'')]) = 0"
    by (simp_all add: harvest_defs)
  have api: "attempts ''grok-image-1.png'' (run (init {}) failingRun) = DOWNLOAD_RETRIES + 1
   \<and> (imageTask ''1'', DOWNLOAD_RETRIES) \<in> set (inflight (run (init {}) failingRun))
   \<and> (404::nat) \<noteq> 200
   \<and> errors (step (run (init {}) failingRun) (Response (imageTask ''1'') DOWNLOAD_RETRIES 404)) = 1
   \<and> timers (step (run (init {}) failingRun) (Response (imageTask ''1'') DOWNLOAD_RETRIES 404)) = []
   \<and> ''grok-image-1.png''
        \<notin> tempDir (step (run (init {}) failingRun) (Response (imageTask ''1'') DOWNLOAD_RETRIES 404))
   \<and> (imageTask ''1'', 0) \<in> set (inflight (run (started {}) [ProcessPost (imagePost ''1'')]))
   \<and> errors (step (run (started {}) [ProcessPost (imagePost ''1'')]) (RequestError (imageTask ''1'') 0)) = 0"
    using attempts_bounded [of "''grok-image-1.png''" "{}" failingRun "imageTask ''1''"
        "run (init {}) failingRun" 404 "Response (imageTask ''1'') DOWNLOAD_RETRIES 404" 0]
      attempts_bounded [of "''grok-image-1.png''" "{}" failingRun "imageTask ''1''"
        "run (started {}) [ProcessPost (imagePost ''1'')]" 404
        "Response (imageTask ''1'') DOWNLOAD_RETRIES 404" 0]
      failingRun_state t i
    by (simp add: DOWNLOAD_RETRIES_def imageTask_def)
  have once: "downloadUrlCalls (scraperStep (scraperRun scraperInit failsOnce)
        (ItemDone ''a'' 0 ''a.mp4'' Interrupted)) = [''a'', ''a'']
   \<and> retriesLeft (objects (scraperStep (scraperRun scraperInit failsOnce)
        (ItemDone ''a'' 0 ''a.mp4'' Interrupted)) ! 0) = 2"
    using attempts_bounded [where ss = "scraperRun scraperInit failsOnce" and u = "''a''"
        and a = 0 and fname = "''a.mp4''" and st = Interrupted] failsOnce_state
    by simp
  have again: "downloadUrlCalls (scraperStep (scraperRun scraperInit failsAgain)
        (ItemDone ''a'' 0 ''a.mp4'' Interrupted)) = [''a'', ''a'', ''a'', ''a'']
   \<and> activeDownloadsMap (scraperStep (scraperRun scraperInit failsAgain)
        (ItemDone ''a'' 0 ''a.mp4'' Interrupted)) = []"
    using attempts_bounded [where ss = "scraperRun scraperInit failsAgain" and u = "''a''"
        and a = 0 and fname = "''a.mp4''" and st = Interrupted] failsAgain_state
    by simp
  have cnt: "retries 0 scraperInit (failsAgain @ [ItemDone ''a'' 0 ''a.mp4'' Interrupted]) = MAX_DOWNLOAD_RETRIES"
    using failsAgain_counts by (simp add: MAX_DOWNLOAD_RETRIES_def)
  have lo: "(''a'', 0, ''a.mp4'') \<in> set (liveItems (scraperRun scraperInit failsOnce))
   \<and> retriesLeft (objects (scraperRun scraperInit failsOnce) ! 0) = 3"
    using failsOnce_state by blast
  have la: "(''a'', 0, ''a.mp4'') \<in> set (liveItems (scraperRun scraperInit failsAgain))
   \<and> retriesLeft (objects (scraperRun scraperInit failsAgain) ! 0) = 0"
    using failsAgain_state by blast
  show ?thesis
    using api once again cnt lo la by blast
qed

section \<open>The scraping harvester: pausing and resuming discovery\<close>

lemma afterDone_never_raises: "scrapingPaused (afterDone s) \<Longrightarrow> scrapingPaused s"
  by (simp add: afterDone_def Let_def split: if_splits)

lemma afterDone_clears_below:
  "scrapingPaused s \<Longrightarrow> \<not> scrapingPaused (afterDone s) \<Longrightarrow>
     load (afterDone s) < DOWNLOAD_RESUME_THRESHOLD"
  by (simp add: afterDone_def load_def Let_def split: if_splits)

lemma willDownload_never_clears: "scrapingPaused s \<Longrightarrow> scrapingPaused (willDownload u m s)"
  by (simp add: willDownload_def Let_def split: option.splits prod.splits)

lemma willDownload_raises_above:
  "\<not> scrapingPaused s \<Longrightarrow> scrapingPaused (willDownload u m s) \<Longrightarrow>
     load (willDownload u m s) > MAX_CONCURRENT_DOWNLOADS"
  by (simp add: willDownload_def load_def Let_def split: option.splits prod.splits if_splits)

lemma itemDone_never_raises: "scrapingPaused (itemDone u a f st s) \<Longrightarrow> scrapingPaused s"
  unfolding itemDone_def Let_def
  by (auto dest!: afterDone_never_raises split: if_splits)

lemma itemDone_clears_below:
  assumes "scrapingPaused s" "\<not> scrapingPaused (itemDone u a f st s)"
  shows "load (itemDone u a f st s) < DOWNLOAD_RESUME_THRESHOLD"
proof -
  let ?s0 = "s\<lparr> liveItems := remove1 (u, a, f) (liveItems s) \<rparr>"
  let ?s1 = "s\<lparr> liveItems := remove1 (u, a, f) (liveItems s),
      activeDownloadsMap := AList.delete u (activeDownloadsMap s) \<rparr>"
  have p: "scrapingPaused ?s0" "scrapingPaused ?s1"
    using assms(1) by simp_all
  show ?thesis
  proof (cases "st = Completed \<or> (st \<noteq> Cancelled \<and> \<not> 0 < retriesLeft (objects s ! a))")
    case True
    then have e: "itemDone u a f st s = afterDone ?s1"
      by (auto simp: itemDone_def Let_def)
    show ?thesis
      using p(2) assms(2) unfolding e by (rule afterDone_clears_below)
  next
    case False
    show ?thesis
    proof (cases "st = Cancelled")
      case True
      then have e: "itemDone u a f st s = afterDone ?s0"
        by (simp add: itemDone_def Let_def)
      show ?thesis
        using p(1) assms(2) unfolding e by (rule afterDone_clears_below)
    next
      case c: False
      then have "scrapingPaused (itemDone u a f st s)"
        using False assms(1) by (simp add: itemDone_def Let_def)
      then show ?thesis
        using assms(2) by simp
    qed
  qed
qed

lemma step_raises_above:
  assumes "\<not> scrapingPaused s" "scrapingPaused (scraperStep s e)"
  shows "load (scraperStep s e) > MAX_CONCURRENT_DOWNLOADS"
proof (cases e)
  case (DownloadUrlMessage u f)
  then show ?thesis using assms by (simp add: onDownloadUrl_def Let_def split: if_splits)
next
  case ScrapingCompleteMessage
  then show ?thesis using assms by (simp add: handleScrapingComplete_def Let_def split: if_splits)
next
  case (WillDownload u m)
  then show ?thesis using assms willDownload_raises_above by simp
next
  case (ItemDone u a f st)
  then show ?thesis using assms itemDone_never_raises by (auto split: if_splits)
next
  case WindowDestroyed
  then show ?thesis using assms by simp
qed

lemma step_clears_below:
  assumes "scrapingPaused s" "\<not> scrapingPaused (scraperStep s e)"
  shows "load (scraperStep s e) < DOWNLOAD_RESUME_THRESHOLD"
proof (cases e)
  case (DownloadUrlMessage u f)
  then show ?thesis using assms by (simp add: onDownloadUrl_def Let_def split: if_splits)
next
  case ScrapingCompleteMessage
  then show ?thesis using assms by (simp add: handleScrapingComplete_def Let_def split: if_splits)
next
  case (WillDownload u m)
  then show ?thesis using assms willDownload_never_clears by simp
next
  case (ItemDone u a f st)
  then show ?thesis using assms itemDone_clears_below by (auto split: if_splits)
next
  case WindowDestroyed
  then show ?thesis using assms by simp
qed

lemma paused_stays:
  "scrapingPaused s \<Longrightarrow> loadStaysAbove DOWNLOAD_RESUME_THRESHOLD s evs \<Longrightarrow>
     scrapingPaused (scraperRun s evs)"
proof (induction evs arbitrary: s)
  case Nil
  then show ?case by (simp add: scraperRun_def)
next
  case (Cons e evs)
  have "scrapingPaused (scraperStep s e)"
  proof (rule ccontr)
    assume "\<not> scrapingPaused (scraperStep s e)"
    then have "load (scraperStep s e) < DOWNLOAD_RESUME_THRESHOLD"
      using Cons.prems(1) by (intro step_clears_below)
    then show False
      using Cons.prems(2) by simp
  qed
  then have "scrapingPaused (scraperRun (scraperStep s e) evs)"
    using Cons.prems by (intro Cons.IH) simp_all
  then show ?case by (simp add: scraperRun_def)
qed

text \<open>
  Claim C8.  The load is the size of \<^verbatim>\<open>activeDownloads\<close>, as the handler finds it when
  it compares.  A transition changes the pause signal only by raising it with the load
  above \<^verbatim>\<open>MAX_CONCURRENT_DOWNLOADS\<close> or by clearing it with the load below
  \<^verbatim>\<open>DOWNLOAD_RESUME_THRESHOLD\<close>; a transition that leaves the load between the two
  thresholds leaves the signal as it was; and once the signal is raised it stays raised
  along any sequence of events after each of which the load is not below the lower
  threshold.
\<close>

theorem backpressure_hysteresis:
  "(scrapingPaused (scraperStep s e) \<noteq> scrapingPaused s \<longrightarrow>
      (scrapingPaused (scraperStep s e) \<and> load (scraperStep s e) > MAX_CONCURRENT_DOWNLOADS)
      \<or> (\<not> scrapingPaused (scraperStep s e) \<and> load (scraperStep s e) < DOWNLOAD_RESUME_THRESHOLD))
   \<and> (DOWNLOAD_RESUME_THRESHOLD \<le> load (scraperStep s e)
        \<and> load (scraperStep s e) \<le> MAX_CONCURRENT_DOWNLOADS \<longrightarrow>
      scrapingPaused (scraperStep s e) = scrapingPaused s)
   \<and> (scrapingPaused s \<and> loadStaysAbove DOWNLOAD_RESUME_THRESHOLD s evs \<longrightarrow>
      scrapingPaused (scraperRun s evs))"
proof (intro conjI impI)
  assume "scrapingPaused (scraperStep s e) \<noteq> scrapingPaused s"
  then consider "\<not> scrapingPaused s" "scrapingPaused (scraperStep s e)"
    | "scrapingPaused s" "\<not> scrapingPaused (scraperStep s e)"
    by blast
  then show "(scrapingPaused (scraperStep s e) \<and> load (scraperStep s e) > MAX_CONCURRENT_DOWNLOADS)
      \<or> (\<not> scrapingPaused (scraperStep s e) \<and> load (scraperStep s e) < DOWNLOAD_RESUME_THRESHOLD)"
    using step_raises_above [of s e] step_clears_below [of s e] by cases blast+
next
  assume b: "DOWNLOAD_RESUME_THRESHOLD \<le> load (scraperStep s e)
      \<and> load (scraperStep s e) \<le> MAX_CONCURRENT_DOWNLOADS"
  show "scrapingPaused (scraperStep s e) = scrapingPaused s"
  proof (rule ccontr)
    assume "scrapingPaused (scraperStep s e) \<noteq> scrapingPaused s"
    then consider "\<not> scrapingPaused s" "scrapingPaused (scraperStep s e)"
      | "scrapingPaused s" "\<not> scrapingPaused (scraperStep s e)"
      by blast
    then show False
    proof cases
      case 1
      then have "load (scraperStep s e) > MAX_CONCURRENT_DOWNLOADS"
        by (rule step_raises_above)
      with b show False by simp
    next
      case 2
      then have "load (scraperStep s e) < DOWNLOAD_RESUME_THRESHOLD"
        by (rule step_clears_below)
      with b show False by simp
    qed
  qed
next
  assume "scrapingPaused s \<and> loadStaysAbove DOWNLOAD_RESUME_THRESHOLD s evs"
  then show "scrapingPaused (scraperRun s evs)"
    using paused_stays by blast
qed

theorem backpressure_hysteresis_witness:
  "scrapingPaused (scraperStep (tracked alphabet) firstStarts) \<noteq> scrapingPaused (tracked alphabet)
   \<and> scrapingPaused (scraperStep (tracked alphabet) firstStarts)
   \<and> load (scraperStep (tracked alphabet) firstStarts) > MAX_CONCURRENT_DOWNLOADS
   \<and> DOWNLOAD_RESUME_THRESHOLD \<le> load (scraperStep (tracked (take 12 alphabet)) firstStarts)
   \<and> load (scraperStep (tracked (take 12 alphabet)) firstStarts) \<le> MAX_CONCURRENT_DOWNLOADS
   \<and> scrapingPaused (scraperStep (tracked (take 12 alphabet)) firstStarts) = scrapingPaused (tracked (take 12 alphabet))
   \<and> loadStaysAbove DOWNLOAD_RESUME_THRESHOLD (scraperStep (tracked alphabet) firstStarts) [firstCompletes]
   \<and> load (scraperRun (scraperStep (tracked alphabet) firstStarts) [firstCompletes]) = 25
   \<and> scrapingPaused (scraperRun (scraperStep (tracked alphabet) firstStarts) [firstCompletes])"
proof -
  have a: "scrapingPaused (scraperStep (tracked alphabet) firstStarts) \<noteq> scrapingPaused (tracked alphabet)"
    by code_simp
  have c: "DOWNLOAD_RESUME_THRESHOLD \<le> load (scraperStep (tracked (take 12 alphabet)) firstStarts)
      \<and> load (scraperStep (tracked (take 12 alphabet)) firstStarts) \<le> MAX_CONCURRENT_DOWNLOADS"
    by code_simp
  have e: "scrapingPaused (scraperStep (tracked alphabet) firstStarts)"
    "loadStaysAbove DOWNLOAD_RESUME_THRESHOLD (scraperStep (tracked alphabet) firstStarts) [firstCompletes]"
    "load (scraperRun (scraperStep (tracked alphabet) firstStarts) [firstCompletes]) = 25"
    by code_simp+
  have r: "\<not> load (scraperStep (tracked alphabet) firstStarts) < DOWNLOAD_RESUME_THRESHOLD"
    by code_simp
  show ?thesis
    using backpressure_hysteresis [of "tracked alphabet" firstStarts "[]"]
      backpressure_hysteresis [of "tracked (take 12 alphabet)" firstStarts "[]"]
      backpressure_hysteresis [of "scraperStep (tracked alphabet) firstStarts" firstStarts "[firstCompletes]"]
      a c e r
    by blast
qed

section \<open>Detecting files that exist already\<close>

lemma stripExtension_ext:
  assumes "ext \<noteq> []" "CHR ''.'' \<notin> set ext" "CHR ''/'' \<notin> set ext"
  shows "stripExtension (base @ ''.'' @ ext) = base"
proof -
  let ?P = "\<lambda>c. c \<noteq> CHR ''.'' \<and> c \<noteq> CHR ''/''"
  have r: "rev (base @ ''.'' @ ext) = rev ext @ CHR ''.'' # rev base"
    by simp
  have all: "\<forall>c \<in> set (rev ext). ?P c"
    using assms(2,3) by auto
  have tw: "takeWhile ?P (rev ext @ CHR ''.'' # rev base) = rev ext"
    using all by (subst takeWhile_append2) auto
  have dw: "dropWhile ?P (rev ext @ CHR ''.'' # rev base) = CHR ''.'' # rev base"
    using all by (subst dropWhile_append2) auto
  show ?thesis
    unfolding stripExtension_def r Let_def tw dw using assms(1) by simp
qed

text \<open>
  Claim C7, amended.  The scraping harvester lists the destination directory once, strips
  the last extension from each name (a name that ends in a dot and an extension without
  dots or slashes loses both), and \<^verbatim>\<open>dealWithItem\<close> requests exactly those potential
  downloads of a new post whose base name is not in that set; it keeps no count of the
  others.  The API harvester tests each candidate on submission for a file of exactly its
  file name in the output directory: if there is one, \<^verbatim>\<open>skipped\<close> goes up by one and
  the queue is unchanged; otherwise the task is appended to the queue.
\<close>

theorem dedup_filters:
  "(ext \<noteq> [] \<and> CHR ''.'' \<notin> set ext \<and> CHR ''/'' \<notin> set ext \<longrightarrow>
      stripExtension (base @ ''.'' @ ext) = base)
   \<and> (truthy pid \<and> the pid \<notin> seen \<longrightarrow>
      snd (dealWithItem (existingFileBases names) seen pid img vid)
        = map (\<lambda>dl. (dlUrl dl, baseName dl @ suffix dl))
            (filter (\<lambda>dl. baseName dl \<notin> stripExtension ` set names)
               (potentialDownloads (the pid) img vid)))
   \<and> (filename t \<in> outputDir s \<longrightarrow>
      skipped (addToQueue t s) = skipped s + 1
      \<and> downloadQueue (addToQueue t s) = downloadQueue s)
   \<and> (filename t \<notin> outputDir s \<longrightarrow>
      skipped (addToQueue t s) = skipped s
      \<and> downloadQueue (addToQueue t s) = downloadQueue s @ [t])"
  using stripExtension_ext [of ext base]
  by (simp add: dealWithItem_def downloadsToRequest_def existingFileBases_def addToQueue_def)

text \<open>
  Claim C7 says that a candidate is answered by its extension-independent base name, and
  that a candidate found present is counted as skipped and not queued.  The API harvester,
  the one that counts skipped candidates, queues a candidate whose base name is present
  with another extension, and counts nothing.
\<close>

theorem same_base_other_extension_is_queued:
  "stripExtension (filename (imageTask ''1'')) \<in> existingFileBases [''grok-image-1.jpg'']
   \<and> downloadQueue (addToQueue (imageTask ''1'') (init {''grok-image-1.jpg''})) = [imageTask ''1'']
   \<and> skipped (addToQueue (imageTask ''1'') (init {''grok-image-1.jpg''})) = 0"
  by (simp add: imageTask_def existingFileBases_def stripExtension_def addToQueue_def init_def)

theorem dedup_filters_witness:
  "''jpg'' \<noteq> [] \<and> CHR ''.'' \<notin> set ''jpg'' \<and> CHR ''/'' \<notin> set ''jpg''
   \<and> stripExtension ''grok-image-abc.jpg'' = ''grok-image-abc''
   \<and> truthy (Some ''abc'') \<and> ''abc'' \<notin> ({} :: string set)
   \<and> snd (dealWithItem (existingFileBases [''grok-image-abc.jpg'']) {} (Some ''abc'')
        ''https://assets.example/abc.jpg'' (Some ''https://assets.example/abc.mp4''))
      = [(''https://assets.example/abc.mp4'', ''grok-video-abc.mp4''),
         (''https://assets.example/abc_hd.mp4'', ''grok-video-hd-abc.mp4'')]
   \<and> filename (imageTask ''1'') \<in> outputDir (init {''grok-image-1.png''})
   \<and> skipped (addToQueue (imageTask ''1'') (init {''grok-image-1.png''})) = 1
   \<and> downloadQueue (addToQueue (imageTask ''1'') (init {''grok-image-1.png''})) = []
   \<and> filename (imageTask ''1'') \<notin> outputDir (init {})
   \<and> downloadQueue (addToQueue (imageTask ''1'') (init {})) = [imageTask ''1'']"
  using dedup_filters [of "''jpg''" "''grok-image-abc''" "Some ''abc''" "{}"
      "[''grok-image-abc.jpg'']" "''https://assets.example/abc.jpg''"
      "Some ''https://assets.example/abc.mp4''" "imageTask ''1''" "init {''grok-image-1.png''}"]
    dedup_filters [of "''jpg''" "''grok-image-abc''" "Some ''abc''" "{}"
      "[''grok-image-abc.jpg'']" "''https://assets.example/abc.jpg''"
      "Some ''https://assets.example/abc.mp4''" "imageTask ''1''" "init {}"]
  by (simp add: truthy_def imageTask_def init_def potentialDownloads_def stripExtension_def
      isWordChar_def)

section \<open>Stall timers\<close>

lemma timePasses_early: "deadline w = Some d \<Longrightarrow> clock < d \<Longrightarrow> timePasses clock w = w"
  by (simp add: timePasses_def)

lemma timePasses_due:
  "deadline w = Some d \<Longrightarrow> d \<le> clock \<Longrightarrow>
     itemCancelled (timePasses clock w) \<and> stallLogged (timePasses clock w)
     \<and> deadline (timePasses clock w) = None"
  by (simp add: timePasses_def timeoutCallback_def)

lemma timePasses_cancelled:
  "itemCancelled w \<and> stallLogged w \<Longrightarrow>
     itemCancelled (timePasses clock w) \<and> stallLogged (timePasses clock w)"
  by (simp add: timePasses_def timeoutCallback_def split: option.splits)

lemma silence_cancels:
  assumes "deadline w = Some d" "\<not> itemCancelled w"
    and "\<forall>(clock, progressing, receivedBytes) \<in> set evs.
           clock < d \<longrightarrow> \<not> (progressing \<and> receivedBytes > lastBytes w)"
  shows "itemCancelled (timePasses d (transfer evs w)) \<and> stallLogged (timePasses d (transfer evs w))"
  using assms
proof (induction evs arbitrary: w)
  case Nil
  then show ?case
    using timePasses_due [of w d d] by simp
next
  case (Cons ev evs)
  obtain clock progressing receivedBytes where ev: "ev = (clock, progressing, receivedBytes)"
    by (cases ev) auto
  show ?case
  proof (cases "clock < d")
    case True
    have tp: "timePasses clock w = w"
      using Cons.prems(1) True by (rule timePasses_early)
    have quiet: "onUpdated clock progressing receivedBytes w = w"
      using Cons.prems(3) True by (auto simp: ev onUpdated_def)
    have "itemCancelled (timePasses d (transfer evs w)) \<and> stallLogged (timePasses d (transfer evs w))"
      using Cons.prems by (intro Cons.IH) auto
    then show ?thesis
      using Cons.prems(2) by (simp add: ev tp quiet)
  next
    case False
    then have fired: "itemCancelled (timePasses clock w) \<and> stallLogged (timePasses clock w)"
      using timePasses_due [of w d clock] Cons.prems(1) by simp
    then have "transfer (ev # evs) w = timePasses clock w"
      by (simp add: ev)
    then show ?thesis
      using fired timePasses_cancelled by simp
  qed
qed

lemma cancelled_iff_not_steady:
  assumes "deadline w = Some d" "\<not> itemCancelled w"
  shows "itemCancelled (transfer evs w) \<longleftrightarrow> \<not> steady d (lastBytes w) evs"
  using assms
proof (induction evs arbitrary: w d)
  case Nil
  then show ?case by simp
next
  case (Cons ev evs)
  obtain clock progressing receivedBytes where ev: "ev = (clock, progressing, receivedBytes)"
    by (cases ev) auto
  show ?case
  proof (cases "clock < d")
    case True
    have tp: "timePasses clock w = w"
      using Cons.prems(1) True by (rule timePasses_early)
    show ?thesis
    proof (cases "progressing \<and> receivedBytes > lastBytes w")
      case rearm: True
      let ?w1 = "onUpdated clock progressing receivedBytes w"
      have w1: "deadline ?w1 = Some (clock + DOWNLOAD_TIMEOUT_MS)" "\<not> itemCancelled ?w1"
        "lastBytes ?w1 = receivedBytes"
        using rearm Cons.prems(2) by (simp_all add: onUpdated_def resetTimeout_def)
      have "itemCancelled (transfer evs ?w1)
          \<longleftrightarrow> \<not> steady (clock + DOWNLOAD_TIMEOUT_MS) (lastBytes ?w1) evs"
        using w1(1,2) by (rule Cons.IH)
      then show ?thesis
        using Cons.prems(2) True rearm w1(3) by (simp add: ev tp)
    next
      case quiet: False
      then have same: "onUpdated clock progressing receivedBytes w = w"
        by (auto simp: onUpdated_def)
      have "itemCancelled (transfer evs w) \<longleftrightarrow> \<not> steady d (lastBytes w) evs"
        using Cons.prems by (rule Cons.IH)
      then show ?thesis
        using Cons.prems(2) True quiet by (auto simp: ev tp same)
    qed
  next
    case False
    then have "itemCancelled (timePasses clock w)"
      using timePasses_due [of w d clock] Cons.prems(1) by simp
    then show ?thesis
      using False by (simp add: ev)
  qed
qed

lemma photoTimePasses_early:
  "photoDeadline w = Some d \<Longrightarrow> clock < d \<Longrightarrow> photoTimePasses clock w = w"
  by (simp add: photoTimePasses_def)

lemma photoTimePasses_due:
  "photoDeadline w = Some d \<Longrightarrow> d \<le> clock \<Longrightarrow> downloadPromise w = PromisePending \<Longrightarrow>
     photoCancelled (photoTimePasses clock w)
     \<and> downloadPromise (photoTimePasses clock w) = Rejected DownloadStalled
     \<and> photoDeadline (photoTimePasses clock w) = None"
  by (simp add: photoTimePasses_def photoTimeoutCallback_def settle_def)

lemma photoTimePasses_fires:
  "photoDeadline w = Some d \<Longrightarrow> d \<le> clock \<Longrightarrow> photoCancelled (photoTimePasses clock w)"
  by (simp add: photoTimePasses_def photoTimeoutCallback_def settle_def)

lemma photo_silence_cancels:
  assumes "photoDeadline w = Some d" "\<not> photoCancelled w" "downloadPromise w = PromisePending"
    and "\<forall>(clock, progressing, receivedBytes) \<in> set evs. clock < d \<longrightarrow> \<not> progressing"
  shows "photoCancelled (photoTimePasses d (photoTransfer evs w))
    \<and> downloadPromise (photoTimePasses d (photoTransfer evs w)) = Rejected DownloadStalled"
  using assms
proof (induction evs arbitrary: w)
  case Nil
  then show ?case
    using photoTimePasses_due [of w d d] by simp
next
  case (Cons ev evs)
  obtain clock progressing receivedBytes where ev: "ev = (clock, progressing, receivedBytes)"
    by (cases ev) auto
  show ?case
  proof (cases "clock < d")
    case True
    have tp: "photoTimePasses clock w = w"
      using Cons.prems(1) True by (rule photoTimePasses_early)
    have quiet: "photoOnUpdated clock progressing w = w"
      using Cons.prems(4) True by (simp add: ev photoOnUpdated_def)
    have "photoCancelled (photoTimePasses d (photoTransfer evs w))
      \<and> downloadPromise (photoTimePasses d (photoTransfer evs w)) = Rejected DownloadStalled"
      using Cons.prems by (intro Cons.IH) auto
    then show ?thesis
      using Cons.prems(2) by (simp add: ev tp quiet)
  next
    case False
    then have fired: "photoCancelled (photoTimePasses clock w)
        \<and> downloadPromise (photoTimePasses clock w) = Rejected DownloadStalled
        \<and> photoDeadline (photoTimePasses clock w) = None"
      using photoTimePasses_due [of w d clock] Cons.prems(1,3) by simp
    then have "photoTransfer (ev # evs) w = photoTimePasses clock w"
      by (simp add: ev)
    then show ?thesis
      using fired by (simp add: photoTimePasses_def)
  qed
qed

lemma photo_cancelled_iff_not_steady:
  assumes "photoDeadline w = Some d" "\<not> photoCancelled w"
  shows "photoCancelled (photoTransfer evs w) \<longleftrightarrow> \<not> photoSteady d evs"
  using assms
proof (induction evs arbitrary: w d)
  case Nil
  then show ?case by simp
next
  case (Cons ev evs)
  obtain clock progressing receivedBytes where ev: "ev = (clock, progressing, receivedBytes)"
    by (cases ev) auto
  show ?case
  proof (cases "clock < d")
    case True
    have tp: "photoTimePasses clock w = w"
      using Cons.prems(1) True by (rule photoTimePasses_early)
    let ?w1 = "photoOnUpdated clock progressing w"
    let ?d1 = "if progressing then clock + DOWNLOAD_TIMEOUT_SECONDS * 1000 else d"
    have w1: "photoDeadline ?w1 = Some ?d1" "\<not> photoCancelled ?w1"
      using Cons.prems by (simp_all add: photoOnUpdated_def photoResetTimeout_def)
    have "photoCancelled (photoTransfer evs ?w1) \<longleftrightarrow> \<not> photoSteady ?d1 evs"
      using w1 by (rule Cons.IH)
    then show ?thesis
      using Cons.prems(2) True by (simp add: ev tp)
  next
    case False
    then have "photoCancelled (photoTimePasses clock w)"
      using photoTimePasses_fires [of w d clock] Cons.prems(1) by simp
    then show ?thesis
      using False by (simp add: ev)
  qed
qed

text \<open>
  Claim C6, amended.  In the scraping harvester and in the photo harvester the
  \<^verbatim>\<open>will-download\<close> handler arms a stall timer when the transfer starts (120 s and 30 s).
  The scraping harvester re-arms it on every update that reports progress and new bytes,
  and on no other update; the photo harvester re-arms it on every update that reports
  progress, and on no other.  If no re-arming update arrives within the timeout, the
  transfer is cancelled: in the photo harvester the attempt results in a failure of kind
  stalled (the download promise is rejected with the stall error), in the scraping
  harvester the stall is printed as an error.  A transfer whose updates all arrive before
  the timer then pending is due has not been cancelled by the timer, and one with an
  update that arrives later has: so a transfer that keeps sending re-arming updates in
  time, however slowly, is never cancelled by it, whatever other updates come in between.
\<close>

theorem stall_timer:
  "deadline (startWatch t0) = Some (t0 + DOWNLOAD_TIMEOUT_MS) \<and> \<not> itemCancelled (startWatch t0)
   \<and> photoDeadline (photoStartWatch t0) = Some (t0 + DOWNLOAD_TIMEOUT_SECONDS * 1000)
   \<and> \<not> photoCancelled (photoStartWatch t0)
   \<and> (progressing \<and> receivedBytes > lastBytes w \<longrightarrow>
        deadline (onUpdated clock progressing receivedBytes w) = Some (clock + DOWNLOAD_TIMEOUT_MS))
   \<and> (\<not> (progressing \<and> receivedBytes > lastBytes w) \<longrightarrow>
        onUpdated clock progressing receivedBytes w = w)
   \<and> (progressing \<longrightarrow>
        photoDeadline (photoOnUpdated clock progressing pw)
          = Some (clock + DOWNLOAD_TIMEOUT_SECONDS * 1000))
   \<and> (\<not> progressing \<longrightarrow> photoOnUpdated clock progressing pw = pw)
   \<and> (deadline w = Some d \<and> \<not> itemCancelled w
        \<and> (\<forall>(clock, progressing, receivedBytes) \<in> set evs.
              clock < d \<longrightarrow> \<not> (progressing \<and> receivedBytes > lastBytes w)) \<longrightarrow>
        itemCancelled (timePasses d (transfer evs w)) \<and> stallLogged (timePasses d (transfer evs w)))
   \<and> (photoDeadline pw = Some d \<and> \<not> photoCancelled pw \<and> downloadPromise pw = PromisePending
        \<and> (\<forall>(clock, progressing, receivedBytes) \<in> set evs. clock < d \<longrightarrow> \<not> progressing) \<longrightarrow>
        photoCancelled (photoTimePasses d (photoTransfer evs pw))
        \<and> downloadPromise (photoTimePasses d (photoTransfer evs pw)) = Rejected DownloadStalled)
   \<and> (deadline w = Some d \<and> \<not> itemCancelled w \<longrightarrow>
        (itemCancelled (transfer evs w) \<longleftrightarrow> \<not> steady d (lastBytes w) evs))
   \<and> (photoDeadline pw = Some d \<and> \<not> photoCancelled pw \<longrightarrow>
        (photoCancelled (photoTransfer evs pw) \<longleftrightarrow> \<not> photoSteady d evs))"
proof -
  have start: "deadline (startWatch t0) = Some (t0 + DOWNLOAD_TIMEOUT_MS)"
    "\<not> itemCancelled (startWatch t0)"
    by (simp_all add: startWatch_def resetTimeout_def)
  have pstart: "photoDeadline (photoStartWatch t0) = Some (t0 + DOWNLOAD_TIMEOUT_SECONDS * 1000)"
    "\<not> photoCancelled (photoStartWatch t0)"
    by (simp_all add: photoStartWatch_def photoResetTimeout_def)
  have upd: "progressing \<and> receivedBytes > lastBytes w \<longrightarrow>
        deadline (onUpdated clock progressing receivedBytes w) = Some (clock + DOWNLOAD_TIMEOUT_MS)"
    "\<not> (progressing \<and> receivedBytes > lastBytes w) \<longrightarrow>
        onUpdated clock progressing receivedBytes w = w"
    by (auto simp: onUpdated_def resetTimeout_def)
  have pupd: "progressing \<longrightarrow>
        photoDeadline (photoOnUpdated clock progressing pw)
          = Some (clock + DOWNLOAD_TIMEOUT_SECONDS * 1000)"
    "\<not> progressing \<longrightarrow> photoOnUpdated clock progressing pw = pw"
    by (simp_all add: photoOnUpdated_def photoResetTimeout_def)
  show ?thesis
    using start pstart upd pupd silence_cancels [of w d evs] photo_silence_cancels [of pw d evs]
      cancelled_iff_not_steady [of w d evs] photo_cancelled_iff_not_steady [of pw d evs]
    by blast
qed

text \<open>
  Claim C6 says that every transfer has a stall timer that is re-armed each time new
  bytes are observed, and that a transfer without new bytes within the timeout is
  cancelled and its attempt fails as stalled.  \<^verbatim>\<open>downloadFile\<close> of the API harvester arms
  no timer: after the request is sent none is pending, and after a million seconds
  without a byte the request is still in flight and no failure has been printed.  The
  photo harvester does not look at bytes: updates that report progress keep a download
  without a single byte alive after 100 seconds.  The scraping harvester does not re-arm
  on new bytes reported by an update of an interrupted item, and cancels although bytes
  came within the timeout.  And in the scraping harvester the cancelled attempt is not a
  failure: the \<^verbatim>\<open>done\<close> handler passes over a cancelled item, so the download stays
  tracked with all its retries left, it is not requested again, and the harvester does not
  end.
\<close>

theorem stall_handling_differs:
  "inflight (run (started {}) [ProcessPost (imagePost ''1''), Tick 1000000000])
     = [(imageTask ''1'', 0)]
   \<and> timers (run (started {}) [ProcessPost (imagePost ''1'')]) = []
   \<and> activeDownloads (run (started {}) [ProcessPost (imagePost ''1''), Tick 1000000000]) = 1
   \<and> console (run (started {}) [ProcessPost (imagePost ''1''), Tick 1000000000])
     = [Downloading ''grok-image-1.png'']
   \<and> \<not> photoCancelled (photoTimePasses 100000 (photoTransfer progressWithoutBytes (photoStartWatch 0)))
   \<and> downloadPromise (photoTimePasses 100000 (photoTransfer progressWithoutBytes (photoStartWatch 0)))
       = PromisePending
   \<and> onUpdated 100000 False 4096 (startWatch 0) = startWatch 0
   \<and> itemCancelled (timePasses 120000 (transfer bytesWhileInterrupted (startWatch 0)))
   \<and> activeDownloadsMap (scraperRun scraperInit cancelledDownload) = [(''a'', 0)]
   \<and> retriesLeft (objects (scraperRun scraperInit cancelledDownload) ! 0) = MAX_DOWNLOAD_RETRIES
   \<and> downloadUrlCalls (scraperRun scraperInit cancelledDownload) = [''a'']
   \<and> \<not> appQuit (scraperRun scraperInit cancelledDownload)"
proof -
  have api: "inflight (run (started {}) [ProcessPost (imagePost ''1''), Tick 1000000000])
       = [(imageTask ''1'', 0)]
     \<and> timers (run (started {}) [ProcessPost (imagePost ''1'')]) = []
     \<and> activeDownloads (run (started {}) [ProcessPost (imagePost ''1''), Tick 1000000000]) = 1
     \<and> console (run (started {}) [ProcessPost (imagePost ''1''), Tick 1000000000])
       = [Downloading ''grok-image-1.png'']"
    by (simp add: harvest_defs)
  have photo: "\<not> photoCancelled (photoTimePasses 100000 (photoTransfer progressWithoutBytes (photoStartWatch 0)))
     \<and> downloadPromise (photoTimePasses 100000 (photoTransfer progressWithoutBytes (photoStartWatch 0)))
       = PromisePending"
    by (simp add: progressWithoutBytes_def photoStartWatch_def photoResetTimeout_def
        photoTimePasses_def photoOnUpdated_def DOWNLOAD_TIMEOUT_SECONDS_def)
  have scr: "onUpdated 100000 False 4096 (startWatch 0) = startWatch 0
     \<and> itemCancelled (timePasses 120000 (transfer bytesWhileInterrupted (startWatch 0)))"
    by (simp add: bytesWhileInterrupted_def startWatch_def resetTimeout_def timePasses_def
        onUpdated_def timeoutCallback_def DOWNLOAD_TIMEOUT_MS_def)
  have trk: "activeDownloadsMap (scraperRun scraperInit cancelledDownload) = [(''a'', 0)]
     \<and> retriesLeft (objects (scraperRun scraperInit cancelledDownload) ! 0) = MAX_DOWNLOAD_RETRIES
     \<and> downloadUrlCalls (scraperRun scraperInit cancelledDownload) = [''a'']
     \<and> \<not> appQuit (scraperRun scraperInit cancelledDownload)"
    by (simp add: cancelledDownload_def scraperRun_def scraperInit_def onDownloadUrl_def
        willDownload_def resolveFilename_def itemDone_def afterDone_def handleScrapingComplete_def
        endsWith_def truthy_def Let_def MAX_CONCURRENT_DOWNLOADS_def DOWNLOAD_RESUME_THRESHOLD_def
        MAX_DOWNLOAD_RETRIES_def)
  show ?thesis
    using api photo scr trk by simp
qed

theorem stall_timer_witness:
  "deadline (startWatch 0) = Some 120000 \<and> \<not> itemCancelled (startWatch 0)
   \<and> photoDeadline (photoStartWatch 0) = Some 30000 \<and> \<not> photoCancelled (photoStartWatch 0)
   \<and> downloadPromise (photoStartWatch 0) = PromisePending
   \<and> (1::nat) > lastBytes (startWatch 0)
   \<and> deadline (onUpdated 100000 True 1 (startWatch 0)) = Some 220000
   \<and> \<not> ((0::nat) > lastBytes (startWatch 0))
   \<and> onUpdated 5000 True 0 (startWatch 0) = startWatch 0
   \<and> photoDeadline (photoOnUpdated 25000 True (photoStartWatch 0)) = Some 55000
   \<and> photoOnUpdated 25000 False (photoStartWatch 0) = photoStartWatch 0
   \<and> list_all (\<lambda>(clock, progressing, receivedBytes).
        \<not> (clock < 120000 \<and> progressing \<and> receivedBytes > lastBytes (startWatch 0))) noNewBytes
   \<and> itemCancelled (timePasses 120000 (transfer noNewBytes (startWatch 0)))
   \<and> stallLogged (timePasses 120000 (transfer noNewBytes (startWatch 0)))
   \<and> list_all (\<lambda>(clock, progressing, receivedBytes). \<not> (clock < 30000 \<and> progressing)) notProgressing
   \<and> downloadPromise (photoTimePasses 30000 (photoTransfer notProgressing (photoStartWatch 0)))
       = Rejected DownloadStalled
   \<and> steady 120000 (lastBytes (startWatch 0)) slowButSteady
   \<and> \<not> itemCancelled (transfer slowButSteady (startWatch 0))
   \<and> photoSteady 30000 slowPhoto
   \<and> \<not> photoCancelled (photoTransfer slowPhoto (photoStartWatch 0))"
proof -
  have basics: "deadline (startWatch 0) = Some 120000" "\<not> itemCancelled (startWatch 0)"
    "photoDeadline (photoStartWatch 0) = Some 30000" "\<not> photoCancelled (photoStartWatch 0)"
    "downloadPromise (photoStartWatch 0) = PromisePending" "lastBytes (startWatch 0) = 0"
    by (simp_all add: startWatch_def resetTimeout_def photoStartWatch_def photoResetTimeout_def
        DOWNLOAD_TIMEOUT_MS_def DOWNLOAD_TIMEOUT_SECONDS_def)
  have hyps: "\<forall>(clock, progressing, receivedBytes) \<in> set noNewBytes.
        clock < 120000 \<longrightarrow> \<not> (progressing \<and> receivedBytes > lastBytes (startWatch 0))"
    "\<forall>(clock, progressing, receivedBytes) \<in> set notProgressing. clock < 30000 \<longrightarrow> \<not> progressing"
    "steady 120000 (lastBytes (startWatch 0)) slowButSteady"
    "photoSteady 30000 slowPhoto"
    by (simp_all add: noNewBytes_def notProgressing_def slowButSteady_def slowPhoto_def basics
        DOWNLOAD_TIMEOUT_MS_def DOWNLOAD_TIMEOUT_SECONDS_def)
  show ?thesis
    using stall_timer [where ?t0.0 = 0 and progressing = True and receivedBytes = 1
          and w = "startWatch 0" and clock = 100000 and pw = "photoStartWatch 0" and d = 120000
          and evs = noNewBytes]
      stall_timer [where ?t0.0 = 0 and progressing = True and receivedBytes = 0
          and w = "startWatch 0" and clock = 5000 and pw = "photoStartWatch 0" and d = 30000
          and evs = notProgressing]
      stall_timer [where ?t0.0 = 0 and progressing = False and receivedBytes = 1
          and w = "startWatch 0" and clock = 25000 and pw = "photoStartWatch 0" and d = 120000
          and evs = slowButSteady]
      stall_timer [where ?t0.0 = 0 and progressing = True and receivedBytes = 1
          and w = "startWatch 0" and clock = 25000 and pw = "photoStartWatch 0" and d = 30000
          and evs = slowPhoto]
      basics hyps
    by (simp add: DOWNLOAD_TIMEOUT_MS_def DOWNLOAD_TIMEOUT_SECONDS_def list_all_iff
        noNewBytes_def notProgressing_def)
qed

end
